theory Spec2Isabelle
  imports
    Complex_Main
    "HOL-Library.Word"
    "HOL-Library.Sublist"
    "HOL-Library.Char_ord"
    "HOL-Library.List_Lexorder"
begin

unbundle bit_operations_syntax

section \<open>Strings and library functions used by the engine\<close>

text \<open>
  In the tracking store and in URLs a Python \<open>str\<close> is modelled as a \<open>string\<close>: the list
  of the bytes of its UTF-8 encoding, which is what the digest and the percent-encoding
  work on. (Template text, whose methods work on code points, has a type of its own
  below.) Timestamps are the ISO-8601 texts that \<open>datetime.isoformat\<close> produces; the
  store compares them as texts, which is the lexicographic order on \<open>string\<close>.
\<close>

subsection \<open>SHA-256 (\<open>hashlib.sha256(...).hexdigest()\<close>)\<close>

type_synonym w32 = "32 word"

type_synonym sha_state = "w32 \<times> w32 \<times> w32 \<times> w32 \<times> w32 \<times> w32 \<times> w32 \<times> w32"

definition sha_K :: "w32 list" where
  "sha_K =
    [0x428A2F98, 0x71374491, 0xB5C0FBCF, 0xE9B5DBA5, 0x3956C25B, 0x59F111F1, 0x923F82A4, 0xAB1C5ED5,
     0xD807AA98, 0x12835B01, 0x243185BE, 0x550C7DC3, 0x72BE5D74, 0x80DEB1FE, 0x9BDC06A7, 0xC19BF174,
     0xE49B69C1, 0xEFBE4786, 0x0FC19DC6, 0x240CA1CC, 0x2DE92C6F, 0x4A7484AA, 0x5CB0A9DC, 0x76F988DA,
     0x983E5152, 0xA831C66D, 0xB00327C8, 0xBF597FC7, 0xC6E00BF3, 0xD5A79147, 0x06CA6351, 0x14292967,
     0x27B70A85, 0x2E1B2138, 0x4D2C6DFC, 0x53380D13, 0x650A7354, 0x766A0ABB, 0x81C2C92E, 0x92722C85,
     0xA2BFE8A1, 0xA81A664B, 0xC24B8B70, 0xC76C51A3, 0xD192E819, 0xD6990624, 0xF40E3585, 0x106AA070,
     0x19A4C116, 0x1E376C08, 0x2748774C, 0x34B0BCB5, 0x391C0CB3, 0x4ED8AA4A, 0x5B9CCA4F, 0x682E6FF3,
     0x748F82EE, 0x78A5636F, 0x84C87814, 0x8CC70208, 0x90BEFFFA, 0xA4506CEB, 0xBEF9A3F7, 0xC67178F2]"

definition sha_H0 :: sha_state where
  "sha_H0 = (0x6A09E667, 0xBB67AE85, 0x3C6EF372, 0xA54FF53A,
             0x510E527F, 0x9B05688C, 0x1F83D9AB, 0x5BE0CD19)"

definition sha_pad :: "string \<Rightarrow> w32 list" where
  "sha_pad s =
     map of_char s @ [128] @ replicate ((119 - length s mod 64) mod 64) 0 @
     map (\<lambda>i. ucast (drop_bit (8 * i) (of_nat (length s * 8) :: 64 word) AND 255))
       [7, 6, 5, 4, 3, 2, 1, 0]"

fun sha_words :: "w32 list \<Rightarrow> w32 list" where
  "sha_words (a # b # c # d # bs) =
     (push_bit 24 a OR push_bit 16 b OR push_bit 8 c OR d) # sha_words bs"
| "sha_words _ = []"

fun sha_blocks :: "w32 list \<Rightarrow> w32 list list" where
  "sha_blocks [] = []"
| "sha_blocks (w # ws) = take 16 (w # ws) # sha_blocks (drop 16 (w # ws))"

definition sha_ssig0 :: "w32 \<Rightarrow> w32" where
  "sha_ssig0 x = word_rotr 7 x XOR word_rotr 18 x XOR drop_bit 3 x"

definition sha_ssig1 :: "w32 \<Rightarrow> w32" where
  "sha_ssig1 x = word_rotr 17 x XOR word_rotr 19 x XOR drop_bit 10 x"

definition sha_bsig0 :: "w32 \<Rightarrow> w32" where
  "sha_bsig0 x = word_rotr 2 x XOR word_rotr 13 x XOR word_rotr 22 x"

definition sha_bsig1 :: "w32 \<Rightarrow> w32" where
  "sha_bsig1 x = word_rotr 6 x XOR word_rotr 11 x XOR word_rotr 25 x"

definition sha_ch :: "w32 \<Rightarrow> w32 \<Rightarrow> w32 \<Rightarrow> w32" where
  "sha_ch x y z = (x AND y) XOR (NOT x AND z)"

definition sha_maj :: "w32 \<Rightarrow> w32 \<Rightarrow> w32 \<Rightarrow> w32" where
  "sha_maj x y z = (x AND y) XOR (x AND z) XOR (y AND z)"

fun sha_schedule :: "nat \<Rightarrow> w32 list \<Rightarrow> w32 list" where
  "sha_schedule 0 ws = ws"
| "sha_schedule (Suc n) ws =
     (let t = length ws
      in sha_schedule n
           (ws @ [sha_ssig1 (ws ! (t - 2)) + ws ! (t - 7) + sha_ssig0 (ws ! (t - 15)) + ws ! (t - 16)]))"

fun sha_round :: "w32 \<times> w32 \<Rightarrow> sha_state \<Rightarrow> sha_state" where
  "sha_round (k, w) (a, b, c, d, e, f, g, h) =
     (let t1 = h + sha_bsig1 e + sha_ch e f g + k + w;
          t2 = sha_bsig0 a + sha_maj a b c
      in (t1 + t2, a, b, c, d + t1, e, f, g))"

fun sha_add :: "sha_state \<Rightarrow> sha_state \<Rightarrow> sha_state" where
  "sha_add (a, b, c, d, e, f, g, h) (a', b', c', d', e', f', g', h') =
     (a + a', b + b', c + c', d + d', e + e', f + f', g + g', h + h')"

definition sha_compress :: "w32 list \<Rightarrow> sha_state \<Rightarrow> sha_state" where
  "sha_compress block st = sha_add st (fold sha_round (zip sha_K (sha_schedule 48 block)) st)"

definition sha256 :: "string \<Rightarrow> sha_state" where
  "sha256 s = fold sha_compress (sha_blocks (sha_words (sha_pad s))) sha_H0"

definition hex_digit :: "nat \<Rightarrow> char" where
  "hex_digit n = ''0123456789abcdef'' ! (n mod 16)"

definition hex_word :: "w32 \<Rightarrow> string" where
  "hex_word w = map (\<lambda>i. hex_digit (unat (drop_bit (4 * i) w AND 15))) [7, 6, 5, 4, 3, 2, 1, 0]"

fun hex_state :: "sha_state \<Rightarrow> string" where
  "hex_state (a, b, c, d, e, f, g, h) =
     hex_word a @ hex_word b @ hex_word c @ hex_word d @
     hex_word e @ hex_word f @ hex_word g @ hex_word h"

definition sha256_hexdigest :: "string \<Rightarrow> string" where
  "sha256_hexdigest s = hex_state (sha256 s)"


subsection \<open>String helpers (\<open>str.lower\<close>, \<open>in\<close>)\<close>

definition lower_char :: "char \<Rightarrow> char" where
  "lower_char c =
     (let n = (of_char c :: nat) in if 65 \<le> n \<and> n \<le> 90 then char_of (n + 32) else c)"

definition py_lower :: "string \<Rightarrow> string" where
  "py_lower s = map lower_char s"

fun substr_in :: "'a list \<Rightarrow> 'a list \<Rightarrow> bool" where
  "substr_in sub [] = (sub = [])"
| "substr_in sub (c # cs) = (prefix sub (c # cs) \<or> substr_in sub cs)"

section \<open>Tracking store (\<open>EmailTracker\<close>)\<close>

text \<open>
  The SQLite database is a record of four tables, each the list of its rows in insertion
  order. Every method opens its own connection and commits, so a method is a function from
  the database to the new database; an exception of the database layer, which every method
  wraps in \<open>RuntimeError\<close>, is \<open>Inl RuntimeError\<close>. Fresh identifiers
  (\<open>uuid.uuid4()\<close>) and the clock (\<open>datetime.now().isoformat()\<close>) are arguments.
  SQLite does not enforce foreign keys unless asked to, and the code never asks.
\<close>

datatype py_error = RuntimeError | ZeroDivisionError

record email_row =
  email_id :: string
  campaign_id :: string
  recipient_email :: string
  template_name :: string
  sent_time :: string
  status :: string
  tracking_pixel_id :: "string option"
  bounce_info :: "string option"
  metadata :: "string option"

record open_row =
  open_id :: string
  open_email_id :: string
  open_time :: string
  open_user_agent :: "string option"
  open_ip_address :: "string option"
  open_country :: "string option"
  open_device_type :: string
  client_info :: string

record click_row =
  click_id :: string
  click_email_id :: string
  link_url :: string
  click_time :: string
  click_user_agent :: "string option"
  click_ip_address :: "string option"
  click_country :: "string option"
  click_device_type :: string

record bounce_row =
  bounce_id :: string
  bounce_email_id :: string
  bounce_time :: string
  bounce_type :: string
  bounce_reason :: string
  description :: "string option"

record db =
  emails :: "email_row list"
  opens :: "open_row list"
  clicks :: "click_row list"
  bounces :: "bounce_row list"

definition init_database :: "db \<Rightarrow> db" where
  \<comment> \<open>\<open>DROP TABLE IF EXISTS\<close> for the four tables, then \<open>CREATE TABLE\<close> for each.\<close>
  "init_database d = \<lparr>emails = [], opens = [], clicks = [], bounces = []\<rparr>"

definition track_email_send ::
  "string \<Rightarrow> string \<Rightarrow> string \<Rightarrow> string option \<Rightarrow> string \<Rightarrow> string \<Rightarrow> db \<Rightarrow> py_error + (string \<times> db)" where
  "track_email_send recipient template campaign meta new_id now d =
     (if new_id \<in> email_id ` set (emails d) then Inl RuntimeError
      else Inr (new_id,
        d\<lparr>emails := emails d @
          [\<lparr>email_id = new_id, campaign_id = campaign, recipient_email = recipient,
            template_name = template, sent_time = now, status = ''sent'',
            tracking_pixel_id = None, bounce_info = None, metadata = meta\<rparr>]\<rparr>))"

definition create_tracking_pixel :: "string \<Rightarrow> string \<Rightarrow> db \<Rightarrow> py_error + (string \<times> db)" where
  "create_tracking_pixel eid pixel_id d =
     (if (\<exists>e \<in> set (emails d). email_id e = eid) \<and>
         (\<exists>e \<in> set (emails d). tracking_pixel_id e = Some pixel_id \<and> email_id e \<noteq> eid)
      then Inl RuntimeError
      else Inr (pixel_id,
        d\<lparr>emails := map (\<lambda>e. if email_id e = eid then e\<lparr>tracking_pixel_id := Some pixel_id\<rparr> else e)
                        (emails d)\<rparr>))"

definition hash_ip :: "string \<Rightarrow> string option" where
  "hash_ip ip_address = (if ip_address = [] then None else Some (sha256_hexdigest ip_address))"

definition detect_device_type :: "string option \<Rightarrow> string" where
  "detect_device_type user_agent =
     (case user_agent of None \<Rightarrow> ''unknown''
      | Some ua \<Rightarrow>
          if ua = [] then ''unknown''
          else let l = py_lower ua in
            if substr_in ''mobile'' l \<or> substr_in ''android'' l \<or> substr_in ''iphone'' l then ''mobile''
            else if substr_in ''tablet'' l \<or> substr_in ''ipad'' l then ''tablet''
            else ''desktop'')"

definition detect_browser :: "string option \<Rightarrow> string" where
  "detect_browser user_agent =
     (case user_agent of None \<Rightarrow> ''unknown''
      | Some ua \<Rightarrow>
          if ua = [] then ''unknown''
          else let l = py_lower ua in
            if substr_in ''chrome'' l \<and> \<not> substr_in ''chromium'' l then ''chrome''
            else if substr_in ''firefox'' l then ''firefox''
            else if substr_in ''safari'' l \<and> \<not> substr_in ''chrome'' l then ''safari''
            else if substr_in ''edge'' l then ''edge''
            else if substr_in ''opera'' l then ''opera''
            else ''unknown'')"

definition detect_os :: "string option \<Rightarrow> string" where
  "detect_os user_agent =
     (case user_agent of None \<Rightarrow> ''unknown''
      | Some ua \<Rightarrow>
          if ua = [] then ''unknown''
          else let l = py_lower ua in
            if substr_in ''windows'' l then ''windows''
            else if substr_in ''mac os'' l \<or> substr_in ''macos'' l then ''macos''
            else if substr_in ''linux'' l then ''linux''
            else if substr_in ''android'' l then ''android''
            else if substr_in ''ios'' l \<or> substr_in ''iphone'' l \<or> substr_in ''ipad'' l then ''ios''
            else ''unknown'')"

definition parse_client_info :: "string option \<Rightarrow> string" where
  \<comment> \<open>\<open>json.dumps\<close> of the dictionary, with its default separators.\<close>
  \<open>parse_client_info user_agent =
     (if user_agent = None \<or> user_agent = Some [] then ''{"type": "unknown"}''
      else ''{"type": "'' @ detect_device_type user_agent @ ''", "browser": "'' @
           detect_browser user_agent @ ''", "os": "'' @ detect_os user_agent @ ''"}'')\<close>

definition stored_ip :: "string option \<Rightarrow> string option" where
  \<comment> \<open>\<open>self._hash_ip(ip_address) if ip_address else None\<close>\<close>
  "stored_ip ip_address =
     (case ip_address of None \<Rightarrow> None | Some a \<Rightarrow> if a = [] then None else hash_ip a)"

definition hex64 :: "string \<Rightarrow> bool" where
  \<comment> \<open>The form of a digest: 64 lower-case hexadecimal digits. No textual IPv4 or IPv6
      address has it (they have at most 45 characters, with a dot or a colon).\<close>
  "hex64 a = (length a = 64 \<and> set a \<subseteq> set ''0123456789abcdef'')"

definition track_open ::
  "string \<Rightarrow> string option \<Rightarrow> string option \<Rightarrow> string option \<Rightarrow> string \<Rightarrow> string \<Rightarrow> db \<Rightarrow> py_error + db" where
  "track_open pixel_id user_agent ip_address country new_id now d =
     (case find (\<lambda>e. tracking_pixel_id e = Some pixel_id) (emails d) of
        None \<Rightarrow> Inr d
      | Some e \<Rightarrow>
          if new_id \<in> open_id ` set (opens d) then Inl RuntimeError
          else Inr (d\<lparr>opens := opens d @
            [\<lparr>open_id = new_id, open_email_id = email_id e, open_time = now,
              open_user_agent = user_agent, open_ip_address = stored_ip ip_address,
              open_country = country, open_device_type = detect_device_type user_agent,
              client_info = parse_client_info user_agent\<rparr>]\<rparr>))"

definition track_click ::
  "string \<Rightarrow> string \<Rightarrow> string option \<Rightarrow> string option \<Rightarrow> string option \<Rightarrow> string \<Rightarrow> string \<Rightarrow> db \<Rightarrow> py_error + db" where
  "track_click eid url user_agent ip_address country new_id now d =
     (if new_id \<in> click_id ` set (clicks d) then Inl RuntimeError
      else Inr (d\<lparr>clicks := clicks d @
        [\<lparr>click_id = new_id, click_email_id = eid, link_url = url, click_time = now,
          click_user_agent = user_agent, click_ip_address = stored_ip ip_address,
          click_country = country, click_device_type = detect_device_type user_agent\<rparr>]\<rparr>))"

definition track_bounce ::
  "string \<Rightarrow> string \<Rightarrow> string \<Rightarrow> string option \<Rightarrow> string \<Rightarrow> string \<Rightarrow> db \<Rightarrow> py_error + db" where
  "track_bounce eid btype reason descr new_id now d =
     (if new_id \<in> bounce_id ` set (bounces d) then Inl RuntimeError
      else Inr (d\<lparr>bounces := bounces d @
          [\<lparr>bounce_id = new_id, bounce_email_id = eid, bounce_time = now,
            bounce_type = btype, bounce_reason = reason, description = descr\<rparr>],
        emails := map (\<lambda>e. if email_id e = eid
                             then e\<lparr>status := ''bounced'', bounce_info := Some reason\<rparr> else e)
                      (emails d)\<rparr>))"

definition cleanup_old_data :: "string \<Rightarrow> db \<Rightarrow> db" where
  \<comment> \<open>\<open>cutoff\<close> is \<open>(datetime.now() - timedelta(days=days)).isoformat()\<close>. The dependent
      tables are purged first, against the \<open>emails\<close> table as it still is.\<close>
  "cleanup_old_data cutoff d =
     (let old = email_id ` {e \<in> set (emails d). sent_time e < cutoff}
      in \<lparr>emails = filter (\<lambda>e. \<not> sent_time e < cutoff) (emails d),
          opens = filter (\<lambda>r. open_email_id r \<notin> old) (opens d),
          clicks = filter (\<lambda>r. click_email_id r \<notin> old) (clicks d),
          bounces = filter (\<lambda>r. bounce_email_id r \<notin> old) (bounces d)\<rparr>)"

subsection \<open>Campaign statistics\<close>

definition inner_join :: "'a list \<Rightarrow> 'b list \<Rightarrow> ('a \<Rightarrow> 'b \<Rightarrow> bool) \<Rightarrow> ('a \<times> 'b) list" where
  "inner_join xs ys on = concat (map (\<lambda>x. map (\<lambda>y. (x, y)) (filter (on x) ys)) xs)"

definition left_join :: "'a list \<Rightarrow> 'b list \<Rightarrow> ('a \<Rightarrow> 'b \<Rightarrow> bool) \<Rightarrow> ('a \<times> 'b option) list" where
  "left_join xs ys on =
     concat (map (\<lambda>x. if filter (on x) ys = [] then [(x, None)]
                       else map (\<lambda>y. (x, Some y)) (filter (on x) ys)) xs)"

definition count_distinct :: "'a list \<Rightarrow> nat" where
  "count_distinct xs = length (remdups xs)"

definition in_scope :: "string \<Rightarrow> string option \<Rightarrow> string option \<Rightarrow> email_row \<Rightarrow> bool" where
  \<comment> \<open>\<open>campaign_id = ?\<close>, and \<open>sent_time BETWEEN ? AND ?\<close> when both dates are given.\<close>
  "in_scope cid start_date end_date e =
     (campaign_id e = cid \<and>
      (case (start_date, end_date) of
         (Some s, Some t) \<Rightarrow> s \<le> sent_time e \<and> sent_time e \<le> t
       | _ \<Rightarrow> True))"

definition group_count :: "'k list \<Rightarrow> ('k \<times> nat) list" where
  \<comment> \<open>\<open>GROUP BY key\<close> with \<open>COUNT(*)\<close>: one pair for each key that occurs.\<close>
  "group_count ks = map (\<lambda>k. (k, length (filter (\<lambda>k'. k' = k) ks))) (remdups ks)"

definition group_count_distinct :: "('k \<times> 'v) list \<Rightarrow> ('k \<times> nat) list" where
  \<comment> \<open>\<open>GROUP BY key\<close> with \<open>COUNT(DISTINCT value)\<close>.\<close>
  "group_count_distinct kvs =
     map (\<lambda>k. (k, count_distinct (map snd (filter (\<lambda>kv. fst kv = k) kvs)))) (remdups (map fst kvs))"

definition py_truediv :: "nat \<Rightarrow> nat \<Rightarrow> py_error + rat" where
  "py_truediv a b = (if b = 0 then Inl ZeroDivisionError else Inr (of_nat a / of_nat b))"

definition rate :: "nat \<Rightarrow> nat \<Rightarrow> py_error + rat" where
  \<comment> \<open>\<open>(a / b * 100) if b > 0 else 0\<close>\<close>
  "rate a b =
     (if b > 0 then (case py_truediv a b of Inl err \<Rightarrow> Inl err | Inr q \<Rightarrow> Inr (q * 100))
      else Inr 0)"

record campaign_stats =
  total_sent :: nat
  unique_recipients :: nat
  stat_bounces :: nat
  bounce_details :: "(string \<times> nat) list"
  bounce_rate :: rat
  unique_opens :: nat
  total_opens :: nat
  unique_clicks :: nat
  total_clicks :: nat
  open_rate :: rat
  click_rate :: rat
  click_to_open_rate :: rat
  devices :: "(string \<times> nat) list"

definition get_campaign_stats ::
  "db \<Rightarrow> string \<Rightarrow> string option \<Rightarrow> string option \<Rightarrow> py_error + campaign_stats" where
  "get_campaign_stats d cid start_date end_date =
     (let sel = in_scope cid start_date end_date;
          sent = filter sel (emails d);
          ts = length sent;
          ur = count_distinct (map recipient_email sent);
          eo = filter (\<lambda>(e, r). sel e)
                 (left_join (emails d) (opens d) (\<lambda>e r. email_id e = open_email_id r));
          uo = count_distinct (map (\<lambda>(e, r). email_id e) eo);
          tot_o = length (filter (\<lambda>(e, r). r \<noteq> None) eo);
          ec = filter (\<lambda>(e, r). sel e)
                 (left_join (emails d) (clicks d) (\<lambda>e r. email_id e = click_email_id r));
          uc = count_distinct (map (\<lambda>(e, r). email_id e) ec);
          tot_c = length (filter (\<lambda>(e, r). r \<noteq> None) ec);
          dev = group_count_distinct
                  (map (\<lambda>(e, r). (open_device_type r, email_id e))
                     (filter (\<lambda>(e, r). sel e)
                        (inner_join (emails d) (opens d) (\<lambda>e r. email_id e = open_email_id r))));
          bd = group_count
                 (map (\<lambda>(e, r). bounce_type r)
                    (filter (\<lambda>(e, r). sel e)
                       (inner_join (emails d) (bounces d) (\<lambda>e r. email_id e = bounce_email_id r))));
          tb = sum_list (map snd bd)
      in case (rate tb ts, rate uo ts, rate uc ts, rate uc uo) of
           (Inr br, Inr opr, Inr cr, Inr ctor) \<Rightarrow>
             Inr \<lparr>total_sent = ts, unique_recipients = ur, stat_bounces = tb, bounce_details = bd,
                  bounce_rate = br, unique_opens = uo, total_opens = tot_o, unique_clicks = uc,
                  total_clicks = tot_c, open_rate = opr, click_rate = cr,
                  click_to_open_rate = ctor, devices = dev\<rparr>
         | _ \<Rightarrow> Inl RuntimeError)"

section \<open>Templates (\<open>EmailTemplate\<close>)\<close>

subsection \<open>Text: \<open>replace\<close>, \<open>strip\<close>, \<open>split\<close>, \<open>join\<close>\<close>

text \<open>
  A template file is opened as text in UTF-8, so what the methods of \<open>str\<close> see here are
  code points, of which there are more than characters of type \<^typ>\<open>char\<close>. A \<open>str\<close> is the
  list of its code points; \<open>ustr\<close> writes one down from its ASCII characters.
\<close>

type_synonym codepoint = nat
type_synonym pystr = "codepoint list"

definition ustr :: "string \<Rightarrow> pystr" where
  "ustr s = map of_char s"

fun replace_from :: "'a list \<Rightarrow> 'a list \<Rightarrow> 'a list \<Rightarrow> 'a list" where
  "replace_from old new [] = []"
| "replace_from old new (c # cs) =
     (if old \<noteq> [] \<and> prefix old (c # cs)
      then new @ replace_from old new (drop (length old) (c # cs))
      else c # replace_from old new cs)"

definition py_replace :: "'a list \<Rightarrow> 'a list \<Rightarrow> 'a list \<Rightarrow> 'a list" where
  \<comment> \<open>\<open>s.replace(old, new)\<close>: the occurrences of \<open>old\<close> found from the left, without
      overlap; an empty \<open>old\<close> matches before every character and at the end.\<close>
  "py_replace old new s =
     (if old = [] then new @ concat (map (\<lambda>c. c # new) s) else replace_from old new s)"

definition is_space :: "codepoint \<Rightarrow> bool" where
  \<comment> \<open>The code points for which \<open>str.isspace\<close> holds, which are those that \<open>str.strip\<close>
      removes: the ASCII ones, U+0085, U+00A0, U+1680, U+2000 to U+200A, U+2028, U+2029,
      U+202F, U+205F and U+3000.\<close>
  "is_space c =
     (c \<in> {0x09, 0x0A, 0x0B, 0x0C, 0x0D, 0x1C, 0x1D, 0x1E, 0x1F, 0x20, 0x85, 0xA0, 0x1680,
           0x2028, 0x2029, 0x202F, 0x205F, 0x3000} \<or>
      (0x2000 \<le> c \<and> c \<le> 0x200A))"

definition py_strip :: "pystr \<Rightarrow> pystr" where
  "py_strip s = rev (dropWhile is_space (rev (dropWhile is_space s)))"

fun py_split :: "'a \<Rightarrow> 'a list \<Rightarrow> 'a list list" where
  \<comment> \<open>\<open>s.split(sep)\<close> for a separator of one character.\<close>
  "py_split sep [] = [[]]"
| "py_split sep (c # cs) =
     (if c = sep then [] # py_split sep cs
      else (case py_split sep cs of w # ws \<Rightarrow> (c # w) # ws | [] \<Rightarrow> [[c]]))"

fun py_join :: "'a list \<Rightarrow> 'a list list \<Rightarrow> 'a list" where
  "py_join sep [] = []"
| "py_join sep [x] = x"
| "py_join sep (x # y # ys) = x @ sep @ py_join sep (y # ys)"

definition path_join :: "pystr \<Rightarrow> pystr \<Rightarrow> pystr" where
  \<comment> \<open>\<open>os.path.join\<close> of two components, on POSIX.\<close>
  "path_join a b =
     (if b \<noteq> [] \<and> hd b = 0x2F then b
      else if a = [] \<or> last a = 0x2F then a @ b
      else a @ ustr ''/'' @ b)"

definition ascii_lower :: "pystr \<Rightarrow> pystr" where
  \<comment> \<open>\<open>str.lower\<close> on ASCII text, for the examples.\<close>
  "ascii_lower s = map (\<lambda>c. if 65 \<le> c \<and> c \<le> 90 then c + 32 else c) s"

subsection \<open>Loading a template\<close>

record email_template =
  template_path :: pystr
  attachment_dir :: pystr
  subject :: pystr
  content :: pystr
  is_html :: bool
  is_base64 :: bool
  attachments :: "pystr list"

datatype template_error =
    DecodeError
  | FileNotFoundError pystr

text \<open>
  The loop over the lines of the file: the template being filled, the flag
  \<open>in_headers\<close> and the list \<open>content_lines\<close>. The method \<open>str.lower\<close>, whose table of
  code points is that of the Unicode standard, is the argument \<open>lower\<close>.
\<close>

definition parse_line ::
  "(pystr \<Rightarrow> pystr) \<Rightarrow> pystr \<Rightarrow> email_template \<times> bool \<times> pystr list \<Rightarrow> email_template \<times> bool \<times> pystr list" where
  "parse_line lower raw st =
     (case st of (t, in_headers, content_lines) \<Rightarrow>
        let line = py_strip raw in
        if in_headers then
          if prefix (ustr ''Subject:'') line
            then (t\<lparr>subject := py_strip (py_replace (ustr ''Subject:'') [] line)\<rparr>,
                  in_headers, content_lines)
          else if prefix (ustr ''Content-Type:'') line
            then (t\<lparr>is_html := substr_in (ustr ''html'') (lower line)\<rparr>, in_headers, content_lines)
          else if prefix (ustr ''Encoding:'') line
            then (t\<lparr>is_base64 := substr_in (ustr ''base64'') (lower line)\<rparr>, in_headers, content_lines)
          else if prefix (ustr ''Attachments:'') line
            then (let atts = py_strip (py_replace (ustr ''Attachments:'') [] line)
                  in if atts \<noteq> []
                     then (t\<lparr>attachments := map py_strip (py_split 0x2C atts)\<rparr>,
                           in_headers, content_lines)
                     else (t, in_headers, content_lines))
          else if line = [] then (t, False, content_lines)
          else (t, in_headers, content_lines)
        else if line \<noteq> [] then (t, in_headers, content_lines @ [line])
        else (t, in_headers, content_lines))"

definition parse_template :: "(pystr \<Rightarrow> pystr) \<Rightarrow> pystr \<Rightarrow> pystr \<Rightarrow> pystr list \<Rightarrow> email_template" where
  \<comment> \<open>\<open>__init__\<close> and the first part of \<open>_load_template\<close>, on the lines read from the file.\<close>
  "parse_template lower path dir lines =
     (case fold (parse_line lower) lines
             (\<lparr>template_path = path, attachment_dir = dir, subject = [], content = [],
               is_html = False, is_base64 = False, attachments = []\<rparr>, True, [])
      of (t, in_headers, content_lines) \<Rightarrow> t\<lparr>content := py_join [0x0A] content_lines\<rparr>)"

fun missing_loop :: "(pystr \<Rightarrow> bool) \<Rightarrow> pystr \<Rightarrow> pystr list \<Rightarrow> pystr list \<Rightarrow> pystr list" where
  "missing_loop path_exists dir [] missing_attachments = missing_attachments"
| "missing_loop path_exists dir (attachment # rest) missing_attachments =
     missing_loop path_exists dir rest
       (if \<not> path_exists (path_join dir attachment)
        then missing_attachments @ [attachment] else missing_attachments)"

definition validate_attachments :: "(pystr \<Rightarrow> bool) \<Rightarrow> email_template \<Rightarrow> template_error + unit" where
  "validate_attachments path_exists t =
     (if attachments t = [] then Inr ()
      else let missing_attachments = missing_loop path_exists (attachment_dir t) (attachments t) []
           in if missing_attachments \<noteq> []
              then Inl (FileNotFoundError
                     (ustr ''Missing attachments: '' @ py_join (ustr '', '') missing_attachments @
                      ustr '' in directory '' @ attachment_dir t))
              else Inr ())"

definition load_template ::
  "(pystr \<Rightarrow> pystr) \<Rightarrow> (pystr \<Rightarrow> pystr option) \<Rightarrow> (pystr \<Rightarrow> bool) \<Rightarrow> pystr \<Rightarrow> pystr \<Rightarrow> pystr list \<Rightarrow>
   template_error + email_template" where
  \<comment> \<open>\<open>b64decode\<close> stands for \<open>base64.b64decode(...).decode('utf-8')\<close>, \<open>None\<close> where it
      raises; \<open>path_exists\<close> for \<open>os.path.exists\<close>; \<open>lines\<close> for \<open>f.readlines()\<close>.\<close>
  "load_template lower b64decode path_exists path dir lines =
     (let t = parse_template lower path dir lines in
      case (if is_base64 t
            then (case b64decode (content t) of None \<Rightarrow> Inl DecodeError
                  | Some c \<Rightarrow> Inr (t\<lparr>content := c\<rparr>))
            else Inr t)
      of Inl err \<Rightarrow> Inl err
       | Inr t' \<Rightarrow> (case validate_attachments path_exists t' of
                      Inl err \<Rightarrow> Inl err | Inr u \<Rightarrow> Inr t'))"

subsection \<open>Placeholders\<close>

definition placeholder :: "pystr \<Rightarrow> pystr" where
  "placeholder key = ustr ''{{.'' @ key @ ustr ''}}''"

definition replace_placeholders :: "email_template \<Rightarrow> (pystr \<times> pystr) list \<Rightarrow> pystr \<times> pystr" where
  \<comment> \<open>\<open>replacements\<close> is the dictionary as the list of its items, in iteration order.\<close>
  "replace_placeholders t replacements =
     fold (\<lambda>(key, value) (subj, cont).
             (py_replace (placeholder key) value subj, py_replace (placeholder key) value cont))
       replacements (subject t, content t)"

text \<open>
  What the specification says of placeholders, on a text given as its parts: literal
  text and placeholders. Every placeholder whose key is in the map becomes the value of
  the key; everything else stays.
\<close>

datatype part = Lit pystr | Ph pystr

fun render_part :: "part \<Rightarrow> pystr" where
  "render_part (Lit s) = s"
| "render_part (Ph k) = placeholder k"

definition render :: "part list \<Rightarrow> pystr" where
  "render ps = concat (map render_part ps)"

fun subst_part :: "(pystr \<rightharpoonup> pystr) \<Rightarrow> part \<Rightarrow> part" where
  "subst_part m (Lit s) = Lit s"
| "subst_part m (Ph k) = (case m k of Some v \<Rightarrow> Lit v | None \<Rightarrow> Ph k)"

definition spec_substitute :: "(pystr \<rightharpoonup> pystr) \<Rightarrow> part list \<Rightarrow> pystr" where
  "spec_substitute m ps = render (map (subst_part m) ps)"

definition lbrace :: codepoint where
  "lbrace = 0x7B"

definition rbrace :: codepoint where
  "rbrace = 0x7D"

fun plain :: "pystr \<Rightarrow> bool" where
  \<comment> \<open>No two opening braces in a row, and no opening brace at the end.\<close>
  "plain [] = True"
| "plain [c] = (c \<noteq> lbrace)"
| "plain (c # d # cs) = (\<not> (c = lbrace \<and> d = lbrace) \<and> plain (d # cs))"

definition brace_free :: "pystr \<Rightarrow> bool" where
  "brace_free s = (lbrace \<notin> set s \<and> rbrace \<notin> set s)"

fun wf_part :: "part \<Rightarrow> bool" where
  "wf_part (Lit s) = plain s"
| "wf_part (Ph k) = brace_free k"

fun subst1 :: "pystr \<Rightarrow> pystr \<Rightarrow> part \<Rightarrow> part" where
  \<comment> \<open>One turn of the loop of \<open>replace_placeholders\<close>, seen on the parts.\<close>
  "subst1 K v (Lit s) = Lit s"
| "subst1 K v (Ph k) = (if k = K then Lit v else Ph k)"

fun expand1 :: "pystr \<Rightarrow> part list \<Rightarrow> part \<Rightarrow> part list" where
  \<comment> \<open>The same turn for a value that is itself given as its parts.\<close>
  "expand1 K vs (Lit s) = [Lit s]"
| "expand1 K vs (Ph k) = (if k = K then vs else [Ph k])"

definition expand :: "pystr \<times> part list \<Rightarrow> part list \<Rightarrow> part list" where
  "expand kv ps = concat (map (expand1 (fst kv) (snd kv)) ps)"

section \<open>Content instrumentation (\<open>generate_tracking_links\<close>)\<close>

subsection \<open>\<open>urllib.parse\<close>: \<open>quote_plus\<close>, \<open>urlencode\<close>, \<open>unquote_plus\<close>\<close>

definition is_unreserved :: "char \<Rightarrow> bool" where
  \<comment> \<open>Letters, digits and \<open>_.-~\<close>: the characters \<open>quote\<close> never escapes.\<close>
  "is_unreserved c =
     (let n = (of_char c :: nat)
      in (48 \<le> n \<and> n \<le> 57) \<or> (65 \<le> n \<and> n \<le> 90) \<or> (97 \<le> n \<and> n \<le> 122) \<or>
         c \<in> set ''_.-~'')"

definition hex_upper :: "nat \<Rightarrow> char" where
  "hex_upper n = ''0123456789ABCDEF'' ! (n mod 16)"

definition quote_char :: "char \<Rightarrow> string" where
  "quote_char c =
     (if is_unreserved c then [c]
      else if c = CHR '' '' then ''+''
      else [CHR ''%'', hex_upper ((of_char c :: nat) div 16), hex_upper ((of_char c :: nat) mod 16)])"

definition quote_plus :: "string \<Rightarrow> string" where
  "quote_plus s = concat (map quote_char s)"

definition urlencode :: "(string \<times> string) list \<Rightarrow> string" where
  "urlencode params = py_join ''&'' (map (\<lambda>(k, v). quote_plus k @ ''='' @ quote_plus v) params)"

definition hex_val :: "char \<Rightarrow> nat option" where
  "hex_val c =
     (let n = (of_char c :: nat)
      in if 48 \<le> n \<and> n \<le> 57 then Some (n - 48)
         else if 65 \<le> n \<and> n \<le> 70 then Some (n - 55)
         else if 97 \<le> n \<and> n \<le> 102 then Some (n - 87)
         else None)"

fun unquote :: "string \<Rightarrow> string" where
  "unquote [] = []"
| "unquote [c] = [c]"
| "unquote [c, a] = [c, a]"
| "unquote (c # a # b # cs) =
     (case (c = CHR ''%'', hex_val a, hex_val b) of
        (True, Some h, Some l) \<Rightarrow> char_of (h * 16 + l) # unquote cs
      | _ \<Rightarrow> c # unquote (a # b # cs))"

definition unquote_plus :: "string \<Rightarrow> string" where
  "unquote_plus s = unquote (map (\<lambda>c. if c = CHR ''+'' then CHR '' '' else c) s)"

subsection \<open>\<open>re.sub\<close> with the pattern \<open>href="([^"]+)"\<close>\<close>

definition dq :: char where
  "dq = CHR 0x22"

definition href_open :: string where
  "href_open = ''href='' @ [dq]"

definition match_href :: "string \<Rightarrow> (string \<times> string) option" where
  \<comment> \<open>A match of the pattern at the start of the text: the group, and the text after the
      match. The group is the longest run of characters other than the quote; the run has
      to be followed by a quote, so no shorter run matches where that one does not.\<close>
  "match_href s =
     (if prefix href_open s
      then (let r = drop (length href_open) s;
                u = takeWhile (\<lambda>c. c \<noteq> dq) r;
                t = dropWhile (\<lambda>c. c \<noteq> dq) r
            in if u \<noteq> [] \<and> t \<noteq> [] then Some (u, tl t) else None)
      else None)"

function re_sub_href :: "(string \<Rightarrow> string) \<Rightarrow> string \<Rightarrow> string" where
  "re_sub_href repl [] = []"
| "re_sub_href repl (c # cs) =
     (case match_href (c # cs) of
        Some (u, rest) \<Rightarrow> repl u @ re_sub_href repl rest
      | None \<Rightarrow> c # re_sub_href repl cs)"
  by pat_completeness auto
termination
proof (relation "measure (\<lambda>(repl, s). length s)")
  fix repl :: "string \<Rightarrow> string" and c cs x2 u rest
  assume "match_href (c # cs) = Some x2" and "(u, rest) = x2"
  then have m: "match_href (c # cs) = Some (u, rest)" by simp
  then have "rest = tl (dropWhile (\<lambda>c. c \<noteq> dq) (drop (length href_open) (c # cs)))"
    by (auto simp: match_href_def Let_def split: if_splits)
  moreover have "length (dropWhile (\<lambda>c. c \<noteq> dq) (drop (length href_open) (c # cs))) \<le> length (c # cs)"
    by (metis length_dropWhile_le length_drop diff_le_self le_trans)
  moreover from m have "dropWhile (\<lambda>c. c \<noteq> dq) (drop (length href_open) (c # cs)) \<noteq> []"
    by (auto simp: match_href_def Let_def split: if_splits)
  ultimately have "length rest < length (c # cs)"
    by (metis length_tl length_greater_0_conv diff_less less_le_trans zero_less_one)
  then show "((repl, rest), (repl, c # cs)) \<in> measure (\<lambda>(repl, s). length s)" by simp
qed simp_all

function re_findall_href :: "string \<Rightarrow> string list" where
  "re_findall_href [] = []"
| "re_findall_href (c # cs) =
     (case match_href (c # cs) of
        Some (u, rest) \<Rightarrow> u # re_findall_href rest
      | None \<Rightarrow> re_findall_href cs)"
  by pat_completeness auto
termination
proof (relation "measure length")
  fix c cs x2 u rest
  assume "match_href (c # cs) = Some x2" and "(u, rest) = x2"
  then have m: "match_href (c # cs) = Some (u, rest)" by simp
  then have "rest = tl (dropWhile (\<lambda>c. c \<noteq> dq) (drop (length href_open) (c # cs)))"
    by (auto simp: match_href_def Let_def split: if_splits)
  moreover have "length (dropWhile (\<lambda>c. c \<noteq> dq) (drop (length href_open) (c # cs))) \<le> length (c # cs)"
    by (metis length_dropWhile_le length_drop diff_le_self le_trans)
  moreover from m have "dropWhile (\<lambda>c. c \<noteq> dq) (drop (length href_open) (c # cs)) \<noteq> []"
    by (auto simp: match_href_def Let_def split: if_splits)
  ultimately have "length rest < length (c # cs)"
    by (metis length_tl length_greater_0_conv diff_less less_le_trans zero_less_one)
  then show "(rest, c # cs) \<in> measure length" by simp
qed simp_all

subsection \<open>Tracking links\<close>

definition link_tag :: "string \<Rightarrow> string \<Rightarrow> string" where
  \<comment> \<open>\<open>hashlib.sha256(f"{email_id}:{original_url}".encode()).hexdigest()[:12]\<close>\<close>
  "link_tag eid original_url = take 12 (sha256_hexdigest (eid @ '':'' @ original_url))"

definition tracking_url :: "string \<Rightarrow> string \<Rightarrow> string \<Rightarrow> string" where
  "tracking_url eid tracking_domain original_url =
     ''https://'' @ tracking_domain @ ''/click?'' @
     urlencode [(''eid'', eid), (''url'', original_url), (''tid'', link_tag eid original_url)]"

definition replace_link :: "string \<Rightarrow> string \<Rightarrow> string \<Rightarrow> string" where
  "replace_link eid tracking_domain original_url =
     href_open @ tracking_url eid tracking_domain original_url @ [dq]"

definition generate_tracking_links :: "string \<Rightarrow> string \<Rightarrow> string \<Rightarrow> string" where
  "generate_tracking_links body eid tracking_domain =
     re_sub_href (replace_link eid tracking_domain) body"

section \<open>Identity rotation\<close>

text \<open>
  What the engine does to the outside world is recorded as a list of events, oldest first.
  The control channel of the local Tor process is an argument: how the connection, the
  authentication and the signal turn out at one call.
\<close>

datatype event =
    IpProbe
  | Authenticate
  | Newnym
  | Settle real
  | Attempt
  | RetryDelay real
  | ResetSocket

datatype control = ConnectFails | AuthFails | SignalFails | ControlOk

subsection \<open>\<open>TorHandler.refresh_circuit\<close>\<close>

record tor_handler =
  enabled :: bool
  control_password :: "string option"
  refresh_interval :: real
  circuit_timeout :: real
  force_tor :: bool
  last_refresh :: real
  current_ip :: "string option"

definition refresh_failed :: "tor_handler \<Rightarrow> event list \<Rightarrow> (py_error + bool) \<times> tor_handler \<times> event list" where
  \<comment> \<open>The handler of \<open>except Exception\<close>.\<close>
  "refresh_failed h evs = (if force_tor h then Inl RuntimeError else Inr False, h, evs)"

definition refresh_circuit ::
  "tor_handler \<Rightarrow> real \<Rightarrow> control \<Rightarrow> string option \<Rightarrow> string option \<Rightarrow>
   (py_error + bool) \<times> tor_handler \<times> event list" where
  \<comment> \<open>\<open>current_time\<close> is \<open>time.time()\<close>; \<open>old_ip\<close> and \<open>new_ip\<close> are what the two calls of
      \<open>_get_current_ip\<close> return, which is \<open>None\<close> where the request fails. The time of
      the refresh is recorded once the signal is sent; \<open>time.sleep\<close> of a negative time
      raises \<open>ValueError\<close>, which the handler takes like the errors of the control port.\<close>
  "refresh_circuit h current_time ctl old_ip new_ip =
     (if \<not> enabled h then (Inr False, h, [])
      else if current_time - last_refresh h < refresh_interval h then (Inr False, h, [])
      else (case ctl of
              ConnectFails \<Rightarrow> refresh_failed h [IpProbe]
            | AuthFails \<Rightarrow> refresh_failed h [IpProbe, Authenticate]
            | SignalFails \<Rightarrow> refresh_failed h [IpProbe, Authenticate]
            | ControlOk \<Rightarrow>
                (let h' = h\<lparr>last_refresh := current_time\<rparr>;
                     evs = [IpProbe, Authenticate, Newnym, Settle (circuit_timeout h), IpProbe]
                 in if circuit_timeout h < 0
                    then refresh_failed h' [IpProbe, Authenticate, Newnym]
                    else if new_ip \<noteq> None \<and> new_ip \<noteq> Some [] \<and> new_ip \<noteq> old_ip
                    then (Inr True, h'\<lparr>current_ip := new_ip\<rparr>, evs)
                    else (Inr False, h', evs))))"

section \<open>Transport (\<open>EmailSender\<close>)\<close>

record sender_config =
  use_tor :: bool
  tor_force_tor :: bool
  circuit_build_timeout :: real
  max_retries :: int
  retry_delay :: real

datatype send_error =
    TorRefreshError
  | SMTPServerDisconnected
  | TransportError
  | AttributeError
  | SleepValueError

definition refresh_tor_circuit :: "sender_config \<Rightarrow> control \<Rightarrow> (send_error + unit) \<times> event list" where
  \<comment> \<open>The refresh of the send path. It keeps no time of the last refresh. Every
      exception, that of \<open>time.sleep\<close> of a negative time included, is taken by the outer
      handler, which raises \<open>RuntimeError\<close> under \<open>force_tor\<close> and goes on otherwise.\<close>
  "refresh_tor_circuit cfg ctl =
     (if \<not> use_tor cfg then (Inr (), [])
      else (case ctl of
              ControlOk \<Rightarrow>
                if 0 \<le> circuit_build_timeout cfg
                then (Inr (), [Authenticate, Newnym, Settle (circuit_build_timeout cfg)])
                else (if tor_force_tor cfg then Inl TorRefreshError else Inr (), [Authenticate, Newnym])
            | ConnectFails \<Rightarrow> (if tor_force_tor cfg then Inl TorRefreshError else Inr (), [])
            | AuthFails \<Rightarrow> (if tor_force_tor cfg then Inl TorRefreshError else Inr (), [Authenticate])
            | SignalFails \<Rightarrow> (if tor_force_tor cfg then Inl TorRefreshError else Inr (), [Authenticate])))"

text \<open>
  The world of one call of \<open>Send\<close>: the control channel and the transport at each turn of
  the retry loop, numbered from 0, and whether the attribute \<open>socket._socketobject\<close>, which
  the handler of a dropped connection reads, exists (it does in Python 2 only).
\<close>

datatype outcome = Delivered | Disconnected | Failed

record send_env =
  controller :: "nat \<Rightarrow> control"
  transport :: "nat \<Rightarrow> outcome"
  socketobject_defined :: bool

datatype turn =
    Return "send_error + unit" sender_config "event list"
  | Again sender_config "event list"

definition smtp_turn :: "send_env \<Rightarrow> int \<Rightarrow> real \<Rightarrow> sender_config \<Rightarrow> nat \<Rightarrow> turn" where
  \<comment> \<open>The body of the \<open>while\<close> loop of \<open>_send_via_smtp\<close>, with \<open>retry_count\<close> at its start.
      In both handlers \<open>time.sleep(retry_delay)\<close> comes first: of a negative delay it
      raises \<open>ValueError\<close>, which leaves the method.\<close>
  "smtp_turn env N d cfg retry_count =
     (let (cfg1, evs1) =
            (if use_tor cfg
             then (case refresh_tor_circuit cfg (controller env retry_count) of
                     (Inl err, evs) \<Rightarrow> (if \<not> tor_force_tor cfg then cfg\<lparr>use_tor := False\<rparr> else cfg, evs)
                   | (Inr u, evs) \<Rightarrow> (cfg, evs))
             else (cfg, []))
      in case transport env retry_count of
           Delivered \<Rightarrow> Return (Inr ()) cfg1 (evs1 @ [Attempt])
         | Disconnected \<Rightarrow>
             if int (retry_count + 1) < N
             then (if d < 0 then Return (Inl SleepValueError) cfg1 (evs1 @ [Attempt])
                   else if use_tor cfg1
                   then (if socketobject_defined env
                         then Again (cfg1\<lparr>use_tor := False\<rparr>) (evs1 @ [Attempt, RetryDelay d, ResetSocket])
                         else Return (Inl AttributeError) cfg1 (evs1 @ [Attempt, RetryDelay d]))
                   else Again cfg1 (evs1 @ [Attempt, RetryDelay d]))
             else Return (Inl SMTPServerDisconnected) cfg1 (evs1 @ [Attempt])
         | Failed \<Rightarrow>
             if int (retry_count + 1) < N
             then (if d < 0 then Return (Inl SleepValueError) cfg1 (evs1 @ [Attempt])
                   else Again cfg1 (evs1 @ [Attempt, RetryDelay d]))
             else Return (Inl TransportError) cfg1 (evs1 @ [Attempt]))"

definition api_turn :: "send_env \<Rightarrow> int \<Rightarrow> real \<Rightarrow> sender_config \<Rightarrow> nat \<Rightarrow> turn" where
  \<comment> \<open>The body of the \<open>while\<close> loop of \<open>_send_via_api\<close>: the refresh is inside the \<open>try\<close>,
      so an error of the refresh is an error of the turn, and every error is handled
      alike. \<open>time.sleep\<close> of a negative delay raises \<open>ValueError\<close> in the handler.\<close>
  "api_turn env N d cfg retry_count =
     (case (if use_tor cfg then refresh_tor_circuit cfg (controller env retry_count) else (Inr (), [])) of
        (Inl err, evs) \<Rightarrow>
          if int (retry_count + 1) < N
          then (if d < 0 then Return (Inl SleepValueError) cfg evs
                else Again cfg (evs @ [RetryDelay d]))
          else Return (Inl err) cfg evs
      | (Inr u, evs) \<Rightarrow>
          (case transport env retry_count of
             Delivered \<Rightarrow> Return (Inr ()) cfg (evs @ [Attempt])
           | _ \<Rightarrow>
               if int (retry_count + 1) < N
               then (if d < 0 then Return (Inl SleepValueError) cfg (evs @ [Attempt])
                     else Again cfg (evs @ [Attempt, RetryDelay d]))
               else Return (Inl TransportError) cfg (evs @ [Attempt])))"

function retry_loop ::
  "(sender_config \<Rightarrow> nat \<Rightarrow> turn) \<Rightarrow> int \<Rightarrow> sender_config \<Rightarrow> nat \<Rightarrow> event list \<Rightarrow>
   (send_error + unit) \<times> sender_config \<times> event list" where
  \<comment> \<open>\<open>while retry_count < max_retries\<close>; leaving the loop at its condition returns \<open>None\<close>.\<close>
  "retry_loop body N cfg retry_count evs =
     (if int retry_count < N
      then (case body cfg retry_count of
              Return res cfg' new \<Rightarrow> (res, cfg', evs @ new)
            | Again cfg' new \<Rightarrow> retry_loop body N cfg' (retry_count + 1) (evs @ new))
      else (Inr (), cfg, evs))"
  by pat_completeness auto
termination
  by (relation "measure (\<lambda>(body, N, cfg, retry_count, evs). nat (N - int retry_count))") auto

definition send_via_smtp :: "send_env \<Rightarrow> sender_config \<Rightarrow> (send_error + unit) \<times> sender_config \<times> event list" where
  "send_via_smtp env cfg =
     retry_loop (smtp_turn env (max_retries cfg) (retry_delay cfg)) (max_retries cfg) cfg 0 []"

definition send_via_api :: "send_env \<Rightarrow> sender_config \<Rightarrow> (send_error + unit) \<times> sender_config \<times> event list" where
  "send_via_api env cfg =
     retry_loop (api_turn env (max_retries cfg) (retry_delay cfg)) (max_retries cfg) cfg 0 []"

fun is_retry_event :: "event \<Rightarrow> bool" where
  "is_retry_event Attempt = True"
| "is_retry_event (RetryDelay d) = True"
| "is_retry_event e = False"

definition retry_events :: "event list \<Rightarrow> event list" where
  \<comment> \<open>The attempts of the transport and the waits between them, among all events.\<close>
  "retry_events evs = filter is_retry_event evs"

text \<open>
  On the API path the refresh of the identity is part of the attempt: where it raises,
  the request is not made and the attempt has failed.
\<close>

definition api_attempt :: "send_env \<Rightarrow> sender_config \<Rightarrow> nat \<Rightarrow> outcome" where
  "api_attempt env cfg i =
     (case fst (refresh_tor_circuit cfg (controller env i)) of
        Inl err \<Rightarrow> Failed
      | Inr u \<Rightarrow> transport env i)"

definition api_requests :: "send_env \<Rightarrow> sender_config \<Rightarrow> nat \<Rightarrow> event list" where
  \<comment> \<open>The requests made at turn \<open>i\<close>: one, or none where the refresh raises.\<close>
  "api_requests env cfg i =
     (case fst (refresh_tor_circuit cfg (controller env i)) of
        Inl err \<Rightarrow> []
      | Inr u \<Rightarrow> [Attempt])"

definition always :: "'a \<Rightarrow> nat \<Rightarrow> 'a" where
  \<comment> \<open>A control channel or a transport that behaves the same at every turn.\<close>
  "always x i = x"

definition refresh_fails_before :: "nat \<Rightarrow> nat \<Rightarrow> control" where
  \<comment> \<open>A control port that refuses the connection at the turns before \<open>k\<close>.\<close>
  "refresh_fails_before k i = (if i < k then ConnectFails else ControlOk)"

definition fails_before :: "nat \<Rightarrow> nat \<Rightarrow> outcome" where
  \<comment> \<open>A transport that fails at the turns before \<open>k\<close> and delivers from turn \<open>k\<close> on.\<close>
  "fails_before k i = (if i < k then Failed else Delivered)"

section \<open>Dispatch loop (\<open>EmailCampaign.send_campaign\<close>)\<close>

text \<open>
  The three nested loops of \<open>send_campaign\<close>, after validation and the loading of the
  recipients. The state is the number of calls of \<open>send_email\<close> made so far and the events
  so far. Whether the call number \<open>n\<close> of \<open>send_email\<close> succeeds is the argument
  \<open>send_ok n\<close>; the constructor of \<open>EmailTemplate\<close> is the argument \<open>load\<close>.
\<close>

datatype 'r dispatch_event =
    SendEmail string 'r
  | MessageDelay real
  | BatchDelay real

record dispatch_config =
  batch_size :: int
  delay_between_batches :: real
  delay_between_emails :: real

datatype campaign_error =
    TemplateFailed template_error
  | RangeStepZero
  | SleepNegative

type_synonym 'r dispatch_state = "nat \<times> 'r dispatch_event list"

fun send_batch ::
  "(nat \<Rightarrow> bool) \<Rightarrow> dispatch_config \<Rightarrow> string \<Rightarrow> 'r list \<Rightarrow> 'r dispatch_state \<Rightarrow> 'r dispatch_state" where
  \<comment> \<open>\<open>for recipient in batch\<close>: the delay between messages is inside the \<open>try\<close>, after
      \<open>send_email\<close>, so a failed send skips it and goes on to the next recipient. So
      does \<open>time.sleep\<close> of a negative delay: it raises \<open>ValueError\<close> without waiting, and
      the same handler logs it and goes on.\<close>
  "send_batch send_ok cfg t [] st = st"
| "send_batch send_ok cfg t (recipient # rest) (n, evs) =
     send_batch send_ok cfg t rest
       (n + 1,
        evs @ [SendEmail t recipient] @
        (if send_ok n \<and> 0 \<le> delay_between_emails cfg
         then [MessageDelay (delay_between_emails cfg)] else []))"

function batch_loop ::
  "(nat \<Rightarrow> bool) \<Rightarrow> dispatch_config \<Rightarrow> string \<Rightarrow> 'r list \<Rightarrow> nat \<Rightarrow> 'r dispatch_state \<Rightarrow>
   campaign_error option \<times> 'r dispatch_state" where
  \<comment> \<open>\<open>for i in range(0, len(recipients), batch_size)\<close>, from \<open>i\<close> on. A negative step
      gives an empty range; the step 0 is refused before the loop. The wait between
      batches is outside the \<open>try\<close> of the recipients: \<open>time.sleep\<close> of a negative delay
      raises \<open>ValueError\<close>, which ends \<open>send_campaign\<close>. The result is the exception, if
      any, and the state reached.\<close>
  "batch_loop send_ok cfg t recipients i st =
     (if 0 < batch_size cfg \<and> i < length recipients
      then (let batch = take (nat (batch_size cfg)) (drop i recipients);
                st1 = send_batch send_ok cfg t batch st
            in if int i + batch_size cfg < int (length recipients)
               then (if delay_between_batches cfg < 0 then (Some SleepNegative, st1)
                     else batch_loop send_ok cfg t recipients (i + nat (batch_size cfg))
                            (fst st1, snd st1 @ [BatchDelay (delay_between_batches cfg)]))
               else batch_loop send_ok cfg t recipients (i + nat (batch_size cfg)) st1)
      else (None, st))"
  by pat_completeness auto
termination
  by (relation "measure (\<lambda>(send_ok, cfg, t, recipients, i, st). length recipients - i)") auto

declare batch_loop.simps [simp del]

fun template_loop ::
  "(string \<Rightarrow> template_error + email_template) \<Rightarrow> (nat \<Rightarrow> bool) \<Rightarrow> dispatch_config \<Rightarrow>
   'r list \<Rightarrow> string list \<Rightarrow> 'r dispatch_state \<Rightarrow> campaign_error option \<times> 'r dispatch_state" where
  "template_loop load send_ok cfg recipients [] st = (None, st)"
| "template_loop load send_ok cfg recipients (name # rest) st =
     (case load name of
        Inl err \<Rightarrow> (Some (TemplateFailed err), st)
      | Inr template \<Rightarrow>
          if batch_size cfg = 0 then (Some RangeStepZero, st)
          else (case batch_loop send_ok cfg name recipients 0 st of
                  (Some err, st') \<Rightarrow> (Some err, st')
                | (None, st') \<Rightarrow> template_loop load send_ok cfg recipients rest st'))"

definition send_campaign_loop ::
  "(string \<Rightarrow> template_error + email_template) \<Rightarrow> (nat \<Rightarrow> bool) \<Rightarrow> dispatch_config \<Rightarrow>
   string list \<Rightarrow> 'r list \<Rightarrow> campaign_error option \<times> 'r dispatch_state" where
  \<comment> \<open>The exception that ends the campaign, if any, the number of calls of \<open>send_email\<close>
      and the events, in their order.\<close>
  "send_campaign_loop load send_ok cfg templates recipients =
     template_loop load send_ok cfg recipients templates (0, [])"

text \<open>
  The words of the specification: the recipient list split into batches of the batch
  size, and the batches of one template with the delay between consecutive ones.
\<close>

function chunks :: "nat \<Rightarrow> 'a list \<Rightarrow> 'a list list" where
  "chunks n xs = (if n = 0 \<or> xs = [] then [] else take n xs # chunks n (drop n xs))"
  by pat_completeness auto
termination
  by (relation "measure (\<lambda>(n, xs). length xs)") auto

declare chunks.simps [simp del]

fun intercalate :: "'a list \<Rightarrow> 'a list list \<Rightarrow> 'a list" where
  "intercalate sep [] = []"
| "intercalate sep [x] = x"
| "intercalate sep (x # y # ys) = x @ sep @ intercalate sep (y # ys)"

fun is_message_delay :: "'r dispatch_event \<Rightarrow> bool" where
  "is_message_delay (MessageDelay d) = True"
| "is_message_delay e = False"

definition batch_events :: "'r dispatch_event list \<Rightarrow> 'r dispatch_event list" where
  \<comment> \<open>The sends and the delays between batches, among all events.\<close>
  "batch_events evs = filter (\<lambda>e. \<not> is_message_delay e) evs"

definition template_events :: "dispatch_config \<Rightarrow> 'r list \<Rightarrow> string \<Rightarrow> 'r dispatch_event list" where
  "template_events cfg recipients t =
     intercalate [BatchDelay (delay_between_batches cfg)]
       (map (map (SendEmail t)) (chunks (nat (batch_size cfg)) recipients))"

definition loads :: "string \<Rightarrow> template_error + email_template" where
  \<comment> \<open>A loader under which every template file parses: the body of the file is the
      name, for the sake of an example.\<close>
  "loads name =
     Inr (parse_template ascii_lower (ustr name) (ustr ''attachments'')
            [ustr ''Subject: s'', [], ustr name])"

fun is_send :: "'r dispatch_event \<Rightarrow> bool" where
  "is_send (SendEmail t r) = True"
| "is_send e = False"

definition fails_at :: "nat \<Rightarrow> nat \<Rightarrow> bool" where
  \<comment> \<open>Every call of \<open>send_email\<close> succeeds but the call number \<open>k\<close>.\<close>
  "fails_at k n = (n \<noteq> k)"

section \<open>Properties of the tracking store\<close>

subsection \<open>Derived rates\<close>

lemma rate_total: "\<exists>q. rate a b = Inr q \<and> (b = 0 \<longrightarrow> q = 0)"
  by (simp add: rate_def py_truediv_def)

text \<open>
  C8. For every database, campaign identifier and period, \<open>get_campaign_stats\<close> returns
  statistics (it never fails with a division error), and each derived rate is 0 when its
  denominator is 0: the bounce, open and click rates when nothing was sent, the
  click-to-open rate when there is no unique open. Rates are exact rationals here, where
  Python computes them in floating point.
\<close>

theorem stats_rates_zero:
  "\<exists>s. get_campaign_stats d cid sd ed = Inr s \<and>
       (total_sent s = 0 \<longrightarrow> bounce_rate s = 0 \<and> open_rate s = 0 \<and> click_rate s = 0) \<and>
       (unique_opens s = 0 \<longrightarrow> click_to_open_rate s = 0)"
proof -
  define sel where "sel = in_scope cid sd ed"
  define ts where "ts = length (filter sel (emails d))"
  define uo where "uo = count_distinct (map (\<lambda>(e, r). email_id e) (filter (\<lambda>(e, r). sel e)
                 (left_join (emails d) (opens d) (\<lambda>e r. email_id e = open_email_id r))))"
  define uc where "uc = count_distinct (map (\<lambda>(e, r). email_id e) (filter (\<lambda>(e, r). sel e)
                 (left_join (emails d) (clicks d) (\<lambda>e r. email_id e = click_email_id r))))"
  define tb where "tb = sum_list (map snd (group_count
                 (map (\<lambda>(e, r). bounce_type r)
                    (filter (\<lambda>(e, r). sel e)
                       (inner_join (emails d) (bounces d) (\<lambda>e r. email_id e = bounce_email_id r))))))"
  obtain br where br: "rate tb ts = Inr br" "ts = 0 \<longrightarrow> br = 0" using rate_total by blast
  obtain opr where opr: "rate uo ts = Inr opr" "ts = 0 \<longrightarrow> opr = 0" using rate_total by blast
  obtain cr where cr: "rate uc ts = Inr cr" "ts = 0 \<longrightarrow> cr = 0" using rate_total by blast
  obtain ctor where ctor: "rate uc uo = Inr ctor" "uo = 0 \<longrightarrow> ctor = 0" using rate_total by blast
  show ?thesis
    unfolding get_campaign_stats_def Let_def
    using br opr cr ctor
    by (simp add: sel_def ts_def uo_def uc_def tb_def)
qed

theorem stats_rates_zero_witness:
  "\<exists>s. get_campaign_stats \<lparr>emails = [], opens = [], clicks = [], bounces = []\<rparr> ''c1'' None None = Inr s \<and>
       total_sent s = 0 \<and> unique_opens s = 0 \<and>
       bounce_rate s = 0 \<and> open_rate s = 0 \<and> click_rate s = 0 \<and> click_to_open_rate s = 0"
proof -
  let ?d = "\<lparr>emails = [], opens = [], clicks = [], bounces = []\<rparr>"
  obtain s where s: "get_campaign_stats ?d ''c1'' None None = Inr s"
      "total_sent s = 0 \<longrightarrow> bounce_rate s = 0 \<and> open_rate s = 0 \<and> click_rate s = 0"
      "unique_opens s = 0 \<longrightarrow> click_to_open_rate s = 0"
    using stats_rates_zero [of ?d "''c1''" None None] by (elim exE conjE)
  have "total_sent s = 0 \<and> unique_opens s = 0"
    using s(1)
    by (auto simp add: get_campaign_stats_def Let_def left_join_def inner_join_def count_distinct_def
          group_count_def rate_def)
  with s show ?thesis by (intro exI [of _ s]) simp
qed

subsection \<open>Unique opens\<close>

lemma left_join_row_fst:
  "fst ` set (if filter (on x) ys = [] then [(x, None)]
              else map (\<lambda>y. (x, Some y)) (filter (on x) ys)) = {x}"
proof (cases "filter (on x) ys")
  case Nil
  then show ?thesis by simp
next
  case (Cons y zs)
  then show ?thesis by (auto simp add: image_image simp del: filter.simps)
qed

lemma left_join_fst_set: "fst ` set (left_join xs ys on) = set xs"
proof -
  have "fst ` set (left_join xs ys on) =
        (\<Union>x\<in>set xs. fst ` set (if filter (on x) ys = [] then [(x, None)]
              else map (\<lambda>y. (x, Some y)) (filter (on x) ys)))"
    unfolding left_join_def by (simp only: set_concat set_map image_UN image_image)
  then show ?thesis by (simp only: left_join_row_fst) simp
qed

lemma count_distinct_card: "count_distinct xs = card (set xs)"
  by (simp add: count_distinct_def length_remdups_card_conv)

lemma unique_count_left_join:
  "count_distinct (map (\<lambda>(e, r). f e) (filter (\<lambda>(e, r). P e) (left_join xs ys on))) =
   card (f ` {x \<in> set xs. P x})"
proof -
  have "set (map (\<lambda>(e, r). f e) (filter (\<lambda>(e, r). P e) (left_join xs ys on))) =
        f ` (fst ` {p \<in> set (left_join xs ys on). P (fst p)})"
    by (force simp: image_iff split: prod.splits)
  also have "fst ` {p \<in> set (left_join xs ys on). P (fst p)} =
             {x \<in> fst ` set (left_join xs ys on). P x}"
    by auto
  finally show ?thesis
    by (simp only: count_distinct_card left_join_fst_set)
qed

lemma unique_opens_eq:
  "get_campaign_stats d cid sd ed = Inr s \<Longrightarrow>
   unique_opens s = card (email_id ` {e \<in> set (emails d). in_scope cid sd ed e})"
  unfolding get_campaign_stats_def Let_def
  by (auto split: sum.splits simp: unique_count_left_join)

lemma unique_opens_ignores_opens:
  "track_open p ua ip co nid now d = Inr d' \<Longrightarrow>
   get_campaign_stats d cid sd ed = Inr s \<Longrightarrow> get_campaign_stats d' cid sd ed = Inr s' \<Longrightarrow>
   unique_opens s' = unique_opens s"
proof -
  assume a: "track_open p ua ip co nid now d = Inr d'"
    and b: "get_campaign_stats d cid sd ed = Inr s" and c: "get_campaign_stats d' cid sd ed = Inr s'"
  from a have "emails d' = emails d"
    by (auto simp: track_open_def split: option.splits if_splits)
  with unique_opens_eq [OF b] unique_opens_eq [OF c] show ?thesis by simp
qed

text \<open>
  C1. The claim: a first open of a message raises the \<open>unique_opens\<close> of its campaign by
  exactly 1, a second open by 0. The query counts \<open>DISTINCT e.email_id\<close> over a
  \<open>LEFT JOIN\<close>, which keeps every message of the campaign, opened or not
  (\<open>unique_opens_eq\<close>), so no open changes the count (\<open>unique_opens_ignores_opens\<close>).
  The theorem runs the code on a campaign of one unopened message: \<open>unique_opens\<close> is 1
  before the first open and 1 after it, while \<open>total_opens\<close> goes from 0 to 1.
\<close>

theorem first_open_leaves_unique_opens:
  \<open>track_open ''p1'' None None None ''o1'' ''2024-01-02T00:00:00''
       \<lparr>emails = [\<lparr>email_id = ''e1'', campaign_id = ''c1'', recipient_email = ''a@example.org'',
                   template_name = ''t.html'', sent_time = ''2024-01-01T00:00:00'', status = ''sent'',
                   tracking_pixel_id = Some ''p1'', bounce_info = None, metadata = None\<rparr>],
        opens = [], clicks = [], bounces = []\<rparr> =
     Inr \<lparr>emails = [\<lparr>email_id = ''e1'', campaign_id = ''c1'', recipient_email = ''a@example.org'',
                   template_name = ''t.html'', sent_time = ''2024-01-01T00:00:00'', status = ''sent'',
                   tracking_pixel_id = Some ''p1'', bounce_info = None, metadata = None\<rparr>],
        opens = [\<lparr>open_id = ''o1'', open_email_id = ''e1'', open_time = ''2024-01-02T00:00:00'',
                  open_user_agent = None, open_ip_address = None, open_country = None,
                  open_device_type = ''unknown'', client_info = ''{"type": "unknown"}''\<rparr>],
        clicks = [], bounces = []\<rparr> \<and>
   map_sum id (\<lambda>s. (unique_opens s, total_opens s))
     (get_campaign_stats
       \<lparr>emails = [\<lparr>email_id = ''e1'', campaign_id = ''c1'', recipient_email = ''a@example.org'',
                   template_name = ''t.html'', sent_time = ''2024-01-01T00:00:00'', status = ''sent'',
                   tracking_pixel_id = Some ''p1'', bounce_info = None, metadata = None\<rparr>],
        opens = [], clicks = [], bounces = []\<rparr> ''c1'' None None) = Inr (1, 0) \<and>
   map_sum id (\<lambda>s. (unique_opens s, total_opens s))
     (get_campaign_stats
       \<lparr>emails = [\<lparr>email_id = ''e1'', campaign_id = ''c1'', recipient_email = ''a@example.org'',
                   template_name = ''t.html'', sent_time = ''2024-01-01T00:00:00'', status = ''sent'',
                   tracking_pixel_id = Some ''p1'', bounce_info = None, metadata = None\<rparr>],
        opens = [\<lparr>open_id = ''o1'', open_email_id = ''e1'', open_time = ''2024-01-02T00:00:00'',
                  open_user_agent = None, open_ip_address = None, open_country = None,
                  open_device_type = ''unknown'', client_info = ''{"type": "unknown"}''\<rparr>],
        clicks = [], bounces = []\<rparr> ''c1'' None None) = Inr (1, 1)\<close>
  by (simp add: get_campaign_stats_def track_open_def Let_def left_join_def inner_join_def
      count_distinct_def group_count_def group_count_distinct_def rate_def py_truediv_def
      in_scope_def detect_device_type_def parse_client_info_def stored_ip_def)

subsection \<open>Client addresses\<close>

lemma length_hex_word: "length (hex_word w) = 8"
  by (simp add: hex_word_def)

lemma hex_digit_in: "hex_digit n \<in> set ''0123456789abcdef''"
proof -
  have "n mod 16 < length ''0123456789abcdef''" by simp
  then show ?thesis unfolding hex_digit_def by (rule nth_mem)
qed

lemma set_hex_word: "set (hex_word w) \<subseteq> set ''0123456789abcdef''"
  unfolding hex_word_def using hex_digit_in by auto

lemma length_sha256_hexdigest: "length (sha256_hexdigest s) = 64"
  unfolding sha256_hexdigest_def
  by (cases "sha256 s" rule: hex_state.cases) (simp add: length_hex_word)

lemma set_sha256_hexdigest: "set (sha256_hexdigest s) \<subseteq> set ''0123456789abcdef''"
  unfolding sha256_hexdigest_def
  using set_hex_word by (cases "sha256 s" rule: hex_state.cases) (simp del: set_simps)

lemma stored_ip_hashed: "a \<noteq> [] \<Longrightarrow> stored_ip (Some a) = Some (sha256_hexdigest a)"
  by (simp add: stored_ip_def hash_ip_def)

text \<open>
  The model of \<open>hashlib.sha256\<close> on the test vectors of the standard: the empty message,
  \<open>abc\<close>, and the message of 56 bytes, which takes two blocks.
\<close>

lemma sha256_empty:
  "sha256_hexdigest [] = ''e3b0c44298fc1c149afbf4c8996fb92427ae41e4649b934ca495991b7852b855''"
  by code_simp

lemma sha256_abc:
  "sha256_hexdigest ''abc'' = ''ba7816bf8f01cfea414140de5dae2223b00361a396177a9cb410ff61f20015ad''"
  by code_simp

lemma sha256_two_blocks:
  "sha256_hexdigest ''abcdbcdecdefdefgefghfghighijhijkijkljklmklmnlmnomnopnopq'' =
   ''248d6a61d20638b8e5c026930c3e6039a33ce45964ff2167f6ecedd419db06c1''"
  by code_simp

lemma sha256_example_address:
  "sha256_hexdigest ''203.0.113.7'' = ''fec52565aa0cf18f57d7cf5b3ac728503b8992d2d6f7d46da1d1201090902b02''"
  by code_simp

text \<open>
  C10. \<open>track_open\<close> and \<open>track_click\<close> are the only methods that receive a client
  address. Called with a non-empty address \<open>a\<close>, \<open>track_open\<close> either fails, or finds no
  message for the pixel and writes nothing, or appends to \<open>opens\<close> one row and changes
  nothing else; \<open>track_click\<close> either fails or appends one row to \<open>clicks\<close> and changes
  nothing else. Every column of the new row is given here: the \<open>ip_address\<close> is the
  SHA-256 hex digest of \<open>a\<close>, and no other column is computed from \<open>a\<close>. The digest has
  64 lower-case hexadecimal digits, so it is not \<open>a\<close> unless \<open>a\<close> itself has that form,
  which no textual network address has.
\<close>

theorem stored_address_is_hashed:
  assumes "a \<noteq> []"
  shows "(track_open p ua (Some a) co nid now d = Inl RuntimeError \<or>
          track_open p ua (Some a) co nid now d = Inr d \<or>
          (\<exists>e \<in> set (emails d).
             track_open p ua (Some a) co nid now d =
               Inr (d\<lparr>opens := opens d @
                     [\<lparr>open_id = nid, open_email_id = email_id e, open_time = now,
                       open_user_agent = ua, open_ip_address = Some (sha256_hexdigest a),
                       open_country = co, open_device_type = detect_device_type ua,
                       client_info = parse_client_info ua\<rparr>]\<rparr>))) \<and>
         (track_click eid url ua (Some a) co nid now d = Inl RuntimeError \<or>
          track_click eid url ua (Some a) co nid now d =
            Inr (d\<lparr>clicks := clicks d @
                  [\<lparr>click_id = nid, click_email_id = eid, link_url = url, click_time = now,
                    click_user_agent = ua, click_ip_address = Some (sha256_hexdigest a),
                    click_country = co, click_device_type = detect_device_type ua\<rparr>]\<rparr>)) \<and>
         hex64 (sha256_hexdigest a) \<and>
         (\<not> hex64 a \<longrightarrow> sha256_hexdigest a \<noteq> a)"
proof (intro conjI impI)
  show "track_open p ua (Some a) co nid now d = Inl RuntimeError \<or>
          track_open p ua (Some a) co nid now d = Inr d \<or>
          (\<exists>e \<in> set (emails d).
             track_open p ua (Some a) co nid now d =
               Inr (d\<lparr>opens := opens d @
                     [\<lparr>open_id = nid, open_email_id = email_id e, open_time = now,
                       open_user_agent = ua, open_ip_address = Some (sha256_hexdigest a),
                       open_country = co, open_device_type = detect_device_type ua,
                       client_info = parse_client_info ua\<rparr>]\<rparr>))"
  proof (cases "find (\<lambda>e. tracking_pixel_id e = Some p) (emails d)")
    case None
    then show ?thesis by (simp add: track_open_def)
  next
    case (Some e)
    then have "e \<in> set (emails d)" by (auto simp: find_Some_iff)
    with Some stored_ip_hashed [OF assms] show ?thesis
      by (auto simp: track_open_def)
  qed
  show "track_click eid url ua (Some a) co nid now d = Inl RuntimeError \<or>
          track_click eid url ua (Some a) co nid now d =
            Inr (d\<lparr>clicks := clicks d @
                  [\<lparr>click_id = nid, click_email_id = eid, link_url = url, click_time = now,
                    click_user_agent = ua, click_ip_address = Some (sha256_hexdigest a),
                    click_country = co, click_device_type = detect_device_type ua\<rparr>]\<rparr>)"
    using stored_ip_hashed [OF assms] by (simp add: track_click_def)
  show h: "hex64 (sha256_hexdigest a)"
    unfolding hex64_def using length_sha256_hexdigest set_sha256_hexdigest by blast
  assume "\<not> hex64 a"
  with h show "sha256_hexdigest a \<noteq> a" by auto
qed

theorem stored_address_is_hashed_witness:
  "track_open ''p1'' (Some ''Mozilla/5.0'') (Some ''203.0.113.7'') None ''o1'' ''2024-01-02T00:00:00''
       \<lparr>emails = [\<lparr>email_id = ''e1'', campaign_id = ''c1'', recipient_email = ''a@example.org'',
                   template_name = ''t.html'', sent_time = ''2024-01-01T00:00:00'', status = ''sent'',
                   tracking_pixel_id = Some ''p1'', bounce_info = None, metadata = None\<rparr>],
        opens = [], clicks = [], bounces = []\<rparr> =
     Inr \<lparr>emails = [\<lparr>email_id = ''e1'', campaign_id = ''c1'', recipient_email = ''a@example.org'',
                   template_name = ''t.html'', sent_time = ''2024-01-01T00:00:00'', status = ''sent'',
                   tracking_pixel_id = Some ''p1'', bounce_info = None, metadata = None\<rparr>],
        opens = [\<lparr>open_id = ''o1'', open_email_id = ''e1'', open_time = ''2024-01-02T00:00:00'',
                  open_user_agent = Some ''Mozilla/5.0'',
                  open_ip_address =
                    Some ''fec52565aa0cf18f57d7cf5b3ac728503b8992d2d6f7d46da1d1201090902b02'',
                  open_country = None, open_device_type = ''desktop'',
                  client_info = parse_client_info (Some ''Mozilla/5.0'')\<rparr>],
        clicks = [], bounces = []\<rparr> \<and>
   sha256_hexdigest ''203.0.113.7'' \<noteq> ''203.0.113.7''"
proof -
  let ?d = "\<lparr>emails = [\<lparr>email_id = ''e1'', campaign_id = ''c1'', recipient_email = ''a@example.org'',
                   template_name = ''t.html'', sent_time = ''2024-01-01T00:00:00'', status = ''sent'',
                   tracking_pixel_id = Some ''p1'', bounce_info = None, metadata = None\<rparr>],
        opens = [], clicks = [], bounces = []\<rparr>"
  have ne: "''203.0.113.7'' \<noteq> []" by simp
  note h = stored_address_is_hashed [OF ne, of "''p1''" "Some ''Mozilla/5.0''" None "''o1''"
      "''2024-01-02T00:00:00''" ?d "''e1''" "''u''"]
  have nh: "\<not> hex64 ''203.0.113.7''" by (simp add: hex64_def)
  from h nh have 1: "sha256_hexdigest ''203.0.113.7'' \<noteq> ''203.0.113.7''" by blast
  have dt: "detect_device_type (Some ''Mozilla/5.0'') = ''desktop''"
    by (simp add: detect_device_type_def py_lower_def lower_char_def Let_def)
  have ok: "track_open ''p1'' (Some ''Mozilla/5.0'') (Some ''203.0.113.7'') None ''o1''
      ''2024-01-02T00:00:00'' ?d \<noteq> Inl RuntimeError"
      "track_open ''p1'' (Some ''Mozilla/5.0'') (Some ''203.0.113.7'') None ''o1''
      ''2024-01-02T00:00:00'' ?d \<noteq> Inr ?d"
    by (simp_all add: track_open_def)
  with h have "track_open ''p1'' (Some ''Mozilla/5.0'') (Some ''203.0.113.7'') None ''o1''
      ''2024-01-02T00:00:00'' ?d =
      Inr (?d\<lparr>opens := opens ?d @
                     [\<lparr>open_id = ''o1'', open_email_id = ''e1'', open_time = ''2024-01-02T00:00:00'',
                       open_user_agent = Some ''Mozilla/5.0'',
                       open_ip_address = Some (sha256_hexdigest ''203.0.113.7''),
                       open_country = None, open_device_type = detect_device_type (Some ''Mozilla/5.0''),
                       client_info = parse_client_info (Some ''Mozilla/5.0'')\<rparr>]\<rparr>)"
    by simp
  with 1 show ?thesis by (simp add: sha256_example_address dt)
qed

subsection \<open>Deletion of sent-message rows\<close>

text \<open>
  C2, as stated, fails at the construction of the store: \<open>_init_database\<close>, which
  \<open>EmailTracker.__init__\<close> runs, drops the four tables before it creates them. A row
  recorded by \<open>track_email_send\<close> is gone after the store is constructed again.
\<close>

theorem init_database_drops_rows:
  "track_email_send ''a@example.org'' ''t.html'' ''c1'' None ''e1'' ''2024-01-01T00:00:00''
       \<lparr>emails = [], opens = [], clicks = [], bounces = []\<rparr> =
     Inr (''e1'',
       \<lparr>emails = [\<lparr>email_id = ''e1'', campaign_id = ''c1'', recipient_email = ''a@example.org'',
                   template_name = ''t.html'', sent_time = ''2024-01-01T00:00:00'', status = ''sent'',
                   tracking_pixel_id = None, bounce_info = None, metadata = None\<rparr>],
        opens = [], clicks = [], bounces = []\<rparr>) \<and>
   emails (init_database
       \<lparr>emails = [\<lparr>email_id = ''e1'', campaign_id = ''c1'', recipient_email = ''a@example.org'',
                   template_name = ''t.html'', sent_time = ''2024-01-01T00:00:00'', status = ''sent'',
                   tracking_pixel_id = None, bounce_info = None, metadata = None\<rparr>],
        opens = [], clicks = [], bounces = []\<rparr>) = []"
  by (simp add: track_email_send_def init_database_def)

text \<open>
  C2, amended. Recording a send appends a row; minting a beacon token and recording an
  open, a click or a bounce keep every row of \<open>emails\<close>, in order, with its identifier and
  its \<open>sent_time\<close> (the token, the status and the bounce detail are the only fields they
  write); the statistics and activity queries only read. Rows are deleted by exactly two
  operations: the retention purge, which removes the rows whose \<open>sent_time\<close> is before the
  cutoff and no other, and the construction of the store, which removes all of them.
\<close>

theorem rows_deleted_only_by_purge_or_init:
  "(\<forall>i d'. track_email_send rcpt tmpl camp meta nid now d = Inr (i, d') \<longrightarrow>
       (\<exists>e. emails d' = emails d @ [e])) \<and>
   (\<forall>i d'. create_tracking_pixel eid pid d = Inr (i, d') \<longrightarrow>
       map email_id (emails d') = map email_id (emails d) \<and>
       map sent_time (emails d') = map sent_time (emails d)) \<and>
   (\<forall>d'. track_open pid ua ip co nid now d = Inr d' \<longrightarrow> emails d' = emails d) \<and>
   (\<forall>d'. track_click eid url ua ip co nid now d = Inr d' \<longrightarrow> emails d' = emails d) \<and>
   (\<forall>d'. track_bounce eid bt br ds nid now d = Inr d' \<longrightarrow>
       map email_id (emails d') = map email_id (emails d) \<and>
       map sent_time (emails d') = map sent_time (emails d)) \<and>
   emails (cleanup_old_data cutoff d) = filter (\<lambda>e. \<not> sent_time e < cutoff) (emails d) \<and>
   emails (init_database d) = []"
proof (intro conjI allI impI)
  fix i d' assume "track_email_send rcpt tmpl camp meta nid now d = Inr (i, d')"
  then show "\<exists>e. emails d' = emails d @ [e]"
    by (auto simp: track_email_send_def split: if_splits)
next
  fix i d' assume "create_tracking_pixel eid pid d = Inr (i, d')"
  then have "emails d' = map (\<lambda>e. if email_id e = eid then e\<lparr>tracking_pixel_id := Some pid\<rparr> else e)
                        (emails d)"
    by (auto simp: create_tracking_pixel_def split: if_splits)
  then show "map email_id (emails d') = map email_id (emails d)"
    "map sent_time (emails d') = map sent_time (emails d)"
    by (simp_all add: comp_def if_distrib cong: if_cong)
next
  fix d' assume "track_open pid ua ip co nid now d = Inr d'"
  then show "emails d' = emails d"
    by (auto simp: track_open_def split: option.splits if_splits)
next
  fix d' assume "track_click eid url ua ip co nid now d = Inr d'"
  then show "emails d' = emails d"
    by (auto simp: track_click_def split: if_splits)
next
  fix d' assume "track_bounce eid bt br ds nid now d = Inr d'"
  then have "emails d' = map (\<lambda>e. if email_id e = eid
                             then e\<lparr>status := ''bounced'', bounce_info := Some br\<rparr> else e)
                      (emails d)"
    by (auto simp: track_bounce_def split: if_splits)
  then show "map email_id (emails d') = map email_id (emails d)"
    "map sent_time (emails d') = map sent_time (emails d)"
    by (simp_all add: comp_def if_distrib cong: if_cong)
next
  show "emails (cleanup_old_data cutoff d) = filter (\<lambda>e. \<not> sent_time e < cutoff) (emails d)"
    by (simp add: cleanup_old_data_def Let_def)
  show "emails (init_database d) = []"
    by (simp add: init_database_def)
qed

theorem rows_deleted_only_by_purge_or_init_witness:
  "\<exists>i d' d''. track_email_send ''a@example.org'' ''t.html'' ''c1'' None ''e1'' ''2024-01-01T00:00:00''
       \<lparr>emails = [], opens = [], clicks = [], bounces = []\<rparr> = Inr (i, d') \<and>
     length (emails d') = 1 \<and>
     track_bounce ''e1'' ''hard'' ''mailbox unknown'' None ''b1'' ''2024-01-02T00:00:00'' d' = Inr d'' \<and>
     map email_id (emails d'') = map email_id (emails d') \<and>
     emails (cleanup_old_data ''2023-12-01T00:00:00'' d'') = emails d'' \<and>
     emails (cleanup_old_data ''2024-03-01T00:00:00'' d'') = [] \<and>
     emails (init_database d'') = []"
proof -
  let ?d0 = "\<lparr>emails = [], opens = [], clicks = [], bounces = []\<rparr>"
  obtain i d' where s: "track_email_send ''a@example.org'' ''t.html'' ''c1'' None ''e1''
      ''2024-01-01T00:00:00'' ?d0 = Inr (i, d')"
    by (simp add: track_email_send_def)
  obtain d'' where b: "track_bounce ''e1'' ''hard'' ''mailbox unknown'' None ''b1''
      ''2024-01-02T00:00:00'' d' = Inr d''"
    using s by (auto simp add: track_bounce_def track_email_send_def)
  note h = rows_deleted_only_by_purge_or_init
  from h [THEN conjunct1, rule_format, OF s] have 1: "length (emails d') = 1"
    by auto
  from h [THEN conjunct2, THEN conjunct2, THEN conjunct2, THEN conjunct2, THEN conjunct1,
      rule_format, OF b]
  have 2: "map email_id (emails d'') = map email_id (emails d')"
    and st: "map sent_time (emails d'') = map sent_time (emails d')" by simp_all
  have "map sent_time (emails d') = [''2024-01-01T00:00:00'']"
    using s by (auto simp: track_email_send_def)
  with st have t: "map sent_time (emails d'') = [''2024-01-01T00:00:00'']" by simp
  have c: "emails (cleanup_old_data cutoff d'') = filter (\<lambda>e. \<not> sent_time e < cutoff) (emails d'')"
    for cutoff
    by (rule h [THEN conjunct2, THEN conjunct2, THEN conjunct2, THEN conjunct2, THEN conjunct2,
          THEN conjunct1])
  have 3: "emails (cleanup_old_data ''2023-12-01T00:00:00'' d'') = emails d''"
    "emails (cleanup_old_data ''2024-03-01T00:00:00'' d'') = []"
    using t by (auto simp: c map_eq_Cons_conv)
  have 4: "emails (init_database d'') = []"
    by (rule h [THEN conjunct2, THEN conjunct2, THEN conjunct2, THEN conjunct2, THEN conjunct2,
          THEN conjunct2])
  show ?thesis using s b 1 2 3 4 by blast
qed

section \<open>Properties of templates\<close>

subsection \<open>Placeholder substitution\<close>

lemma placeholder_eq: "placeholder k = lbrace # lbrace # 46 # k @ [rbrace, rbrace]"
  by (simp add: placeholder_def ustr_def lbrace_def rbrace_def)

lemma replace_skip:
  "old \<noteq> [] \<Longrightarrow> (\<forall>i < length a. \<not> prefix old (drop i a @ b)) \<Longrightarrow>
   replace_from old new (a @ b) = a @ replace_from old new b"
proof (induction a)
  case Nil
  then show ?case by simp
next
  case (Cons x xs)
  from Cons.prems(2) have 0: "\<not> prefix old (x # xs @ b)" by force
  have "\<forall>i < length xs. \<not> prefix old (drop i xs @ b)"
  proof (intro allI impI)
    fix i assume "i < length xs"
    then have "Suc i < length (x # xs)" by simp
    with Cons.prems(2) have "\<not> prefix old (drop (Suc i) (x # xs) @ b)" by blast
    then show "\<not> prefix old (drop i xs @ b)" by simp
  qed
  with Cons.IH Cons.prems(1) have "replace_from old new (xs @ b) = xs @ replace_from old new b"
    by blast
  with 0 show ?case by simp
qed

lemma replace_hit:
  "old \<noteq> [] \<Longrightarrow> replace_from old new (old @ b) = new @ replace_from old new b"
  by (cases old) simp_all

lemma plain_no_start:
  "plain s \<Longrightarrow> i < length s \<Longrightarrow> \<not> prefix (lbrace # lbrace # q) (drop i s @ b)"
proof (induction s arbitrary: i rule: plain.induct)
  case 1
  then show ?case by simp
next
  case (2 c)
  then show ?case by simp
next
  case (3 c d cs)
  show ?case
  proof (cases i)
    case 0
    with 3 show ?thesis by auto
  next
    case (Suc j)
    with 3 show ?thesis by simp
  qed
qed

lemma prefix_key_eq:
  "rbrace \<notin> set K \<Longrightarrow> rbrace \<notin> set k \<Longrightarrow>
   prefix (K @ rbrace # x) (k @ rbrace # y) \<Longrightarrow> K = k"
proof (induction K arbitrary: k)
  case Nil
  then show ?case by (cases k) auto
next
  case (Cons a K)
  then show ?case by (cases k) auto
qed

lemma first_char_no_start:
  "i < length a \<Longrightarrow> a ! i \<noteq> c \<Longrightarrow> \<not> prefix (c # q) (drop i a @ b)"
proof -
  assume i: "i < length a" and ne: "a ! i \<noteq> c"
  from i have "drop i a = a ! i # drop (Suc i) a" by (simp add: Cons_nth_drop_Suc)
  with ne show ?thesis by simp
qed

lemma ph_no_start:
  assumes "brace_free k" "brace_free K" "k \<noteq> K" "i < length (placeholder k)"
  shows "\<not> prefix (placeholder K) (drop i (placeholder k) @ b)"
proof (cases "i = 0")
  case True
  show ?thesis
  proof
    assume "prefix (placeholder K) (drop i (placeholder k) @ b)"
    with True have "prefix (K @ rbrace # [rbrace]) (k @ rbrace # ([rbrace] @ b))"
      by (simp add: placeholder_eq)
    with assms(1,2) have "K = k" using prefix_key_eq unfolding brace_free_def by blast
    with assms(3) show False by simp
  qed
next
  case False
  show ?thesis
  proof (cases "i = 1")
    case True
    then show ?thesis by (simp add: placeholder_eq) (simp add: lbrace_def)
  next
    case False
    with \<open>i \<noteq> 0\<close> have i2: "2 \<le> i" by simp
    from i2 have "2 + (i - 2) = i" by simp
    then have "drop 2 (placeholder k) ! (i - 2) = placeholder k ! i"
      using assms(4) by (simp only: nth_drop)
    moreover have "i - 2 < length (drop 2 (placeholder k))"
      using i2 assms(4) by simp
    ultimately have "placeholder k ! i \<in> set (drop 2 (placeholder k))"
      by (metis nth_mem)
    moreover have "lbrace \<notin> set (drop 2 (placeholder k))"
      using assms(1) by (auto simp: placeholder_eq brace_free_def) (simp_all add: lbrace_def rbrace_def)
    ultimately have "placeholder k ! i \<noteq> lbrace" by metis
    from first_char_no_start [OF assms(4) this]
    show ?thesis by (simp add: placeholder_eq)
  qed
qed

lemma replace_render:
  assumes K: "brace_free K" and wf: "\<forall>p \<in> set ps. wf_part p"
  shows "replace_from (placeholder K) v (render ps) = render (map (subst1 K v) ps)"
  using wf
proof (induction ps)
  case Nil
  then show ?case by (simp add: render_def)
next
  case (Cons p ps)
  then have IH: "replace_from (placeholder K) v (render ps) = render (map (subst1 K v) ps)"
    by simp
  have ne: "placeholder K \<noteq> []" by (simp add: placeholder_eq)
  have r: "render (p # ps) = render_part p @ render ps" by (simp add: render_def)
  show ?case
  proof (cases p)
    case (Lit s)
    with Cons.prems have "plain s" by simp
    then have "\<forall>i < length s. \<not> prefix (placeholder K) (drop i s @ render ps)"
      using plain_no_start by (simp add: placeholder_eq)
    from replace_skip [OF ne this] IH Lit show ?thesis
      by (simp add: render_def)
  next
    case (Ph k)
    with Cons.prems have k: "brace_free k" by simp
    show ?thesis
    proof (cases "k = K")
      case True
      with Ph replace_hit [OF ne] IH show ?thesis by (simp add: render_def)
    next
      case False
      from ph_no_start [OF k K False]
      have "\<forall>i < length (placeholder k). \<not> prefix (placeholder K) (drop i (placeholder k) @ render ps)"
        by blast
      from replace_skip [OF ne this] IH Ph False show ?thesis
        by (simp add: render_def)
    qed
  qed
qed

lemma subst_part_wf: "wf_part p \<Longrightarrow> plain v \<Longrightarrow> wf_part (subst1 K v p)"
  by (cases p) auto

lemma subst_part_empty: "map (subst_part Map.empty) xs = xs"
proof (induction xs)
  case Nil
  then show ?case by simp
next
  case (Cons x xs)
  then show ?case by (cases x) simp_all
qed

lemma subst_part_step:
  "subst_part (map_of rest) (subst1 k v p) = subst_part (map_of ((k, v) # rest)) p"
  by (cases p) auto

lemma fold_replace_render:
  assumes "\<forall>(k, v) \<in> set replacements. brace_free k \<and> plain v"
    and "\<forall>p \<in> set ps. wf_part p" and "\<forall>p \<in> set qs. wf_part p"
  shows "fold (\<lambda>(key, value) (subj, cont).
             (py_replace (placeholder key) value subj, py_replace (placeholder key) value cont))
          replacements (render ps, render qs) =
         (render (map (subst_part (map_of replacements)) ps),
          render (map (subst_part (map_of replacements)) qs))"
  using assms
proof (induction replacements arbitrary: ps qs)
  case Nil
  show ?case by (simp add: subst_part_empty)
next
  case (Cons kv rest)
  obtain k v where kv: "kv = (k, v)" by (cases kv)
  with Cons.prems have k: "brace_free k" and v: "plain v"
    and rest: "\<forall>(k, v) \<in> set rest. brace_free k \<and> plain v" by auto
  have ne: "placeholder k \<noteq> []" by (simp add: placeholder_eq)
  let ?ps = "map (subst1 k v) ps" and ?qs = "map (subst1 k v) qs"
  have wf: "\<forall>p \<in> set ?ps. wf_part p" "\<forall>p \<in> set ?qs. wf_part p"
    using Cons.prems(2,3) v subst_part_wf by auto
  have "fold (\<lambda>(key, value) (subj, cont).
             (py_replace (placeholder key) value subj, py_replace (placeholder key) value cont))
          (kv # rest) (render ps, render qs) =
        fold (\<lambda>(key, value) (subj, cont).
             (py_replace (placeholder key) value subj, py_replace (placeholder key) value cont))
          rest (render ?ps, render ?qs)"
    using replace_render [OF k Cons.prems(2)] replace_render [OF k Cons.prems(3)] ne
    by (simp add: kv py_replace_def)
  also have "\<dots> = (render (map (subst_part (map_of rest)) ?ps),
                    render (map (subst_part (map_of rest)) ?qs))"
    by (rule Cons.IH [OF rest wf])
  also have "\<dots> = (render (map (subst_part (map_of (kv # rest))) ps),
                    render (map (subst_part (map_of (kv # rest))) qs))"
    by (simp add: kv subst_part_step comp_def del: subst_part.simps map_of.simps)
  finally show ?case .
qed


lemma render_append: "render (ps @ qs) = render ps @ render qs"
  by (simp add: render_def)

lemma expand_render: "render (map (subst1 k (render vs)) ps) = render (expand (k, vs) ps)"
proof (induction ps)
  case Nil
  show ?case by (simp add: render_def expand_def)
next
  case (Cons p ps)
  have 1: "render (map (subst1 k (render vs)) (p # ps)) =
          render [subst1 k (render vs) p] @ render (map (subst1 k (render vs)) ps)"
    by (simp add: render_def)
  have 2: "render [subst1 k (render vs) p] = render (expand1 k vs p)"
    by (cases p) (simp_all add: render_def)
  have 3: "render (expand (k, vs) (p # ps)) = render (expand1 k vs p) @ render (expand (k, vs) ps)"
    by (simp add: expand_def render_def)
  from 1 2 3 Cons show ?case by simp
qed

lemma expand_wf:
  "\<forall>p \<in> set ps. wf_part p \<Longrightarrow> \<forall>p \<in> set vs. wf_part p \<Longrightarrow> \<forall>p \<in> set (expand (k, vs) ps). wf_part p"
proof (induction ps)
  case Nil
  show ?case by (simp add: expand_def)
next
  case (Cons p ps)
  then have "\<forall>q \<in> set (expand (k, vs) ps). wf_part q" by simp
  moreover have "\<forall>q \<in> set (expand1 k vs p). wf_part q"
    using Cons.prems by (cases p) auto
  moreover have "expand (k, vs) (p # ps) = expand1 k vs p @ expand (k, vs) ps"
    by (simp add: expand_def)
  ultimately show ?case by auto
qed

lemma fold_replace_expand:
  assumes "\<forall>(k, vs) \<in> set kvs. brace_free k \<and> (\<forall>p \<in> set vs. wf_part p)"
    and "\<forall>p \<in> set ps. wf_part p" and "\<forall>p \<in> set qs. wf_part p"
  shows "fold (\<lambda>(key, value) (subj, cont).
             (py_replace (placeholder key) value subj, py_replace (placeholder key) value cont))
          (map (\<lambda>(k, vs). (k, render vs)) kvs) (render ps, render qs) =
         (render (fold expand kvs ps), render (fold expand kvs qs))"
  using assms
proof (induction kvs arbitrary: ps qs)
  case Nil
  show ?case by simp
next
  case (Cons kv rest)
  obtain k vs where kv: "kv = (k, vs)" by (cases kv)
  with Cons.prems have k: "brace_free k" and vs: "\<forall>p \<in> set vs. wf_part p"
    and rest: "\<forall>(k, vs) \<in> set rest. brace_free k \<and> (\<forall>p \<in> set vs. wf_part p)" by auto
  have ne: "placeholder k \<noteq> []" by (simp add: placeholder_eq)
  let ?ps = "expand (k, vs) ps" and ?qs = "expand (k, vs) qs"
  have wf: "\<forall>p \<in> set ?ps. wf_part p" "\<forall>p \<in> set ?qs. wf_part p"
    using expand_wf [OF Cons.prems(2) vs] expand_wf [OF Cons.prems(3) vs] by blast+
  have "fold (\<lambda>(key, value) (subj, cont).
             (py_replace (placeholder key) value subj, py_replace (placeholder key) value cont))
          (map (\<lambda>(k, vs). (k, render vs)) (kv # rest)) (render ps, render qs) =
        fold (\<lambda>(key, value) (subj, cont).
             (py_replace (placeholder key) value subj, py_replace (placeholder key) value cont))
          (map (\<lambda>(k, vs). (k, render vs)) rest) (render ?ps, render ?qs)"
    using replace_render [OF k Cons.prems(2)] replace_render [OF k Cons.prems(3)] ne
    by (simp add: kv py_replace_def expand_render)
  also have "\<dots> = (render (fold expand rest ?ps), render (fold expand rest ?qs))"
    by (rule Cons.IH [OF rest wf])
  finally show ?case by (simp add: kv)
qed

text \<open>
  C9, as stated, fails: the code replaces one key after the other on the text the earlier
  replacements produced, so a value that contains the placeholder of a later key is
  substituted again. With the recipient's first name \<open>{{.Email}}\<close>, the subject
  \<open>Hi {{.FirstName}}\<close> becomes \<open>Hi j@example.org\<close>, where replacing each placeholder
  by the value of its key gives \<open>Hi {{.Email}}\<close>.
\<close>

theorem chained_substitution:
  "replace_placeholders
     \<lparr>template_path = ustr ''t.txt'', attachment_dir = ustr ''attachments'',
      subject = ustr ''Hi {{.FirstName}}'', content = ustr ''Dear {{.FirstName}}'',
      is_html = False, is_base64 = False, attachments = []\<rparr>
     [(ustr ''FirstName'', ustr ''{{.Email}}''), (ustr ''LastName'', ustr ''Doe''),
      (ustr ''Email'', ustr ''j@example.org'')] =
     (ustr ''Hi j@example.org'', ustr ''Dear j@example.org'') \<and>
   spec_substitute
     (map_of [(ustr ''FirstName'', ustr ''{{.Email}}''), (ustr ''LastName'', ustr ''Doe''),
              (ustr ''Email'', ustr ''j@example.org'')])
     [Lit (ustr ''Hi ''), Ph (ustr ''FirstName'')] = ustr ''Hi {{.Email}}'' \<and>
   render [Lit (ustr ''Hi ''), Ph (ustr ''FirstName'')] = ustr ''Hi {{.FirstName}}''"
  by (simp add: replace_placeholders_def py_replace_def placeholder_def render_def
      spec_substitute_def ustr_def)

text \<open>
  C9, amended. Let subject and body consist of placeholders with brace-free keys and of
  literal text that has no two opening braces in a row and no opening brace at its end.
  If the map has brace-free keys and values that are such literal text, then
  \<open>replace_placeholders\<close> returns subject and body with every placeholder whose key is in
  the map replaced by the value of that key, and with every other part, the placeholders
  of unknown keys included, unchanged. It returns a pair for every input: no error.
  Replacement is sequential in the order of the map: if the values themselves consist of
  such literal text and placeholders, the result is what replacing, key after key, each
  placeholder of the key by its value gives on the text produced so far, so that a
  placeholder of a later key inside the value of an earlier one is replaced too.
\<close>

theorem replace_placeholders_plain:
  assumes "subject t = render ps" and "content t = render qs"
    and "\<forall>p \<in> set ps \<union> set qs. wf_part p"
  shows "((\<forall>(k, v) \<in> set replacements. brace_free k \<and> plain v) \<longrightarrow>
            replace_placeholders t replacements =
              (spec_substitute (map_of replacements) ps, spec_substitute (map_of replacements) qs)) \<and>
         ((\<forall>(k, vs) \<in> set kvs. brace_free k \<and> (\<forall>p \<in> set vs. wf_part p)) \<longrightarrow>
            replace_placeholders t (map (\<lambda>(k, vs). (k, render vs)) kvs) =
              (render (fold expand kvs ps), render (fold expand kvs qs)))"
proof (intro conjI impI)
  from assms(3) have wf: "\<forall>p \<in> set ps. wf_part p" "\<forall>p \<in> set qs. wf_part p" by auto
  {
    assume "\<forall>(k, v) \<in> set replacements. brace_free k \<and> plain v"
    from fold_replace_render [OF this wf] assms(1,2)
    show "replace_placeholders t replacements =
              (spec_substitute (map_of replacements) ps, spec_substitute (map_of replacements) qs)"
      by (simp add: replace_placeholders_def spec_substitute_def)
  }
  {
    assume "\<forall>(k, vs) \<in> set kvs. brace_free k \<and> (\<forall>p \<in> set vs. wf_part p)"
    from fold_replace_expand [OF this wf] assms(1,2)
    show "replace_placeholders t (map (\<lambda>(k, vs). (k, render vs)) kvs) =
              (render (fold expand kvs ps), render (fold expand kvs qs))"
      by (simp add: replace_placeholders_def)
  }
qed

theorem replace_placeholders_plain_witness:
  "replace_placeholders
     \<lparr>template_path = ustr ''t.html'', attachment_dir = ustr ''attachments'',
      subject = ustr ''Hi {{.FirstName}}'',
      content = ustr ''<style>p {color: red}</style>Dear {{.FirstName}} {{.LastName}}, code {{.Code}}'',
      is_html = True, is_base64 = False, attachments = []\<rparr>
     [(ustr ''FirstName'', ustr ''Jane''), (ustr ''LastName'', ustr ''Doe''),
      (ustr ''Email'', ustr ''j@example.org'')] =
   (ustr ''Hi Jane'', ustr ''<style>p {color: red}</style>Dear Jane Doe, code {{.Code}}'') \<and>
   replace_placeholders
     \<lparr>template_path = ustr ''t.html'', attachment_dir = ustr ''attachments'',
      subject = ustr ''Hi {{.FirstName}}'',
      content = ustr ''<style>p {color: red}</style>Dear {{.FirstName}} {{.LastName}}, code {{.Code}}'',
      is_html = True, is_base64 = False, attachments = []\<rparr>
     [(ustr ''FirstName'', ustr ''{{.Email}} {{.Nick}}''), (ustr ''LastName'', ustr ''Doe''),
      (ustr ''Email'', ustr ''j@example.org'')] =
   (ustr ''Hi j@example.org {{.Nick}}'',
    ustr ''<style>p {color: red}</style>Dear j@example.org {{.Nick}} Doe, code {{.Code}}'')"
proof -
  let ?t = "\<lparr>template_path = ustr ''t.html'', attachment_dir = ustr ''attachments'',
      subject = ustr ''Hi {{.FirstName}}'',
      content = ustr ''<style>p {color: red}</style>Dear {{.FirstName}} {{.LastName}}, code {{.Code}}'',
      is_html = True, is_base64 = False, attachments = []\<rparr>"
  let ?ps = "[Lit (ustr ''Hi ''), Ph (ustr ''FirstName'')]"
  let ?qs = "[Lit (ustr ''<style>p {color: red}</style>Dear ''), Ph (ustr ''FirstName''), Lit (ustr '' ''),
              Ph (ustr ''LastName''), Lit (ustr '', code ''), Ph (ustr ''Code'')]"
  let ?r = "[(ustr ''FirstName'', ustr ''Jane''), (ustr ''LastName'', ustr ''Doe''),
      (ustr ''Email'', ustr ''j@example.org'')]"
  let ?kvs = "[(ustr ''FirstName'', [Ph (ustr ''Email''), Lit (ustr '' ''), Ph (ustr ''Nick'')]),
      (ustr ''LastName'', [Lit (ustr ''Doe'')]), (ustr ''Email'', [Lit (ustr ''j@example.org'')])]"
  from replace_placeholders_plain [of ?t ?ps ?qs ?r ?kvs]
  show ?thesis
    by (simp add: brace_free_def spec_substitute_def render_def placeholder_def ustr_def
        lbrace_def rbrace_def expand_def)
qed

subsection \<open>Missing attachments\<close>

lemma missing_loop_filter:
  "missing_loop ex dir atts acc = acc @ filter (\<lambda>a. \<not> ex (path_join dir a)) atts"
  by (induction atts arbitrary: acc) simp_all

lemma substr_in_here: "substr_in a (a @ y)"
proof (cases "a @ y")
  case Nil
  then show ?thesis by simp
next
  case (Cons c cs)
  have "prefix a (a @ y)" by simp
  with Cons show ?thesis by simp
qed

lemma substr_in_mid: "substr_in a (x @ a @ y)"
proof (induction x)
  case Nil
  show ?case using substr_in_here by simp
next
  case (Cons c x)
  then show ?case by simp
qed

lemma py_join_mem: "a \<in> set xs \<Longrightarrow> \<exists>x y. py_join sep xs = x @ a @ y"
proof (induction sep xs rule: py_join.induct)
  case (1 sep)
  then show ?case by simp
next
  case (2 sep x)
  then have "py_join sep [x] = [] @ a @ []" by simp
  then show ?case by blast
next
  case (3 sep x y ys)
  show ?case
  proof (cases "a = x")
    case True
    then have "py_join sep (x # y # ys) = [] @ a @ (sep @ py_join sep (y # ys))" by simp
    then show ?thesis by blast
  next
    case False
    with 3 obtain u w where "py_join sep (y # ys) = u @ a @ w" by auto
    then have "py_join sep (x # y # ys) = (x @ sep @ u) @ a @ w" by simp
    then show ?thesis by blast
  qed
qed

lemma substr_in_message:
  assumes "a \<in> set xs"
  shows "substr_in a (pre @ py_join sep xs @ post)"
proof -
  from py_join_mem [OF assms] obtain x y where "py_join sep xs = x @ a @ y" by blast
  then have "pre @ py_join sep xs @ post = (pre @ x) @ a @ (y @ post)" by simp
  then show ?thesis using substr_in_mid by metis
qed

lemma parse_line_keeps_dir:
  "parse_line lower raw (t, h, cl) = (t', h', cl') \<Longrightarrow> attachment_dir t' = attachment_dir t"
  by (auto simp: parse_line_def Let_def split: if_splits)

lemma fold_parse_line_keeps_dir:
  "fold (parse_line lower) lines st = (t', h', cl') \<Longrightarrow> attachment_dir t' = attachment_dir (fst st)"
proof (induction lines arbitrary: st)
  case Nil
  then show ?case by auto
next
  case (Cons l ls)
  obtain t h cl where st: "st = (t, h, cl)" by (cases st)
  obtain t1 h1 cl1 where s1: "parse_line lower l (t, h, cl) = (t1, h1, cl1)"
    by (cases "parse_line lower l (t, h, cl)")
  from Cons.prems st s1 have "fold (parse_line lower) ls (t1, h1, cl1) = (t', h', cl')" by simp
  from Cons.IH [OF this] parse_line_keeps_dir [OF s1] st show ?case by simp
qed

lemma parse_template_dir: "attachment_dir (parse_template lower path dir lines) = dir"
proof -
  obtain t h cl where f: "fold (parse_line lower) lines
             (\<lparr>template_path = path, attachment_dir = dir, subject = [], content = [],
               is_html = False, is_base64 = False, attachments = []\<rparr>, True, []) = (t, h, cl)"
    using prod_cases3 by blast
  from fold_parse_line_keeps_dir [OF f] f show ?thesis by (simp add: parse_template_def)
qed

text \<open>
  C7, as stated, fails for a template that declares base64 encoding and whose body does
  not decode: \<open>_load_template\<close> decodes the body before it validates the attachments, and
  the decoding error leaves the method first. The template below declares the attachment
  \<open>a.pdf\<close>, which is absent, and its body \<open>abc\<close> is not valid base64 (incorrect padding):
  loading fails with the decoding error and no attachment is reported.
\<close>

theorem decode_error_precedes_attachment_check:
  "attachments (parse_template ascii_lower (ustr ''t.txt'') (ustr ''attachments'')
       [ustr ''Subject: Offer'', ustr ''Encoding: base64'', ustr ''Attachments: a.pdf'', [],
        ustr ''abc'']) = [ustr ''a.pdf''] \<and>
   load_template ascii_lower (\<lambda>s. None) (\<lambda>p. False) (ustr ''t.txt'') (ustr ''attachments'')
       [ustr ''Subject: Offer'', ustr ''Encoding: base64'', ustr ''Attachments: a.pdf'', [],
        ustr ''abc''] = Inl DecodeError"
  by (simp add: load_template_def parse_template_def parse_line_def py_strip_def is_space_def
      py_replace_def ascii_lower_def ustr_def Let_def)

text \<open>
  C7, amended. If the template declares base64 encoding and its body does not decode,
  loading fails with the decoding error, whatever attachments are declared. For every
  other template that declares attachments: if a declared attachment is absent from the
  attachment directory (\<open>os.path.exists\<close> fails on its joined path), loading fails, at
  load time, with the missing-attachment error whose message lists the absent file names,
  all of them and in the declared order, each of them a substring of the message.
\<close>

theorem load_template_missing_attachments:
  "(is_base64 (parse_template lower path dir lines) \<and>
    b64decode (content (parse_template lower path dir lines)) = None \<longrightarrow>
      load_template lower b64decode ex path dir lines = Inl DecodeError) \<and>
   ((is_base64 (parse_template lower path dir lines) \<longrightarrow>
       b64decode (content (parse_template lower path dir lines)) \<noteq> None) \<and>
    (\<exists>a \<in> set (attachments (parse_template lower path dir lines)). \<not> ex (path_join dir a)) \<longrightarrow>
      (\<exists>missing msg.
         load_template lower b64decode ex path dir lines = Inl (FileNotFoundError msg) \<and>
         missing = filter (\<lambda>a. \<not> ex (path_join dir a))
                     (attachments (parse_template lower path dir lines)) \<and>
         msg = ustr ''Missing attachments: '' @ py_join (ustr '', '') missing @
               ustr '' in directory '' @ dir \<and>
         (\<forall>a \<in> set (attachments (parse_template lower path dir lines)).
            \<not> ex (path_join dir a) \<longrightarrow> a \<in> set missing \<and> substr_in a msg)))"
proof (intro conjI impI)
  let ?t = "parse_template lower path dir lines"
  assume "is_base64 ?t \<and> b64decode (content ?t) = None"
  then show "load_template lower b64decode ex path dir lines = Inl DecodeError"
    by (simp add: load_template_def Let_def)
next
  let ?t = "parse_template lower path dir lines"
  let ?missing = "filter (\<lambda>a. \<not> ex (path_join dir a)) (attachments ?t)"
  let ?msg = "ustr ''Missing attachments: '' @ py_join (ustr '', '') ?missing @ ustr '' in directory '' @ dir"
  assume h: "(is_base64 ?t \<longrightarrow> b64decode (content ?t) \<noteq> None) \<and>
             (\<exists>a \<in> set (attachments ?t). \<not> ex (path_join dir a))"
  then have ne: "?missing \<noteq> []" by (auto simp: filter_empty_conv)
  then have ne2: "attachments ?t \<noteq> []" by auto
  have v: "validate_attachments ex t' = Inl (FileNotFoundError ?msg)"
    if "attachments t' = attachments ?t" "attachment_dir t' = dir" for t'
    using that ne ne2 by (simp add: validate_attachments_def missing_loop_filter Let_def)
  have "load_template lower b64decode ex path dir lines = Inl (FileNotFoundError ?msg)"
  proof (cases "is_base64 ?t")
    case True
    with h obtain c where "b64decode (content ?t) = Some c" by auto
    with True v [of "?t\<lparr>content := c\<rparr>"] parse_template_dir [of lower path dir lines]
    show ?thesis by (simp add: load_template_def Let_def)
  next
    case False
    with v [of ?t] parse_template_dir [of lower path dir lines]
    show ?thesis by (simp add: load_template_def Let_def)
  qed
  moreover have "\<forall>a \<in> set (attachments ?t). \<not> ex (path_join dir a) \<longrightarrow>
      a \<in> set ?missing \<and> substr_in a ?msg"
    using substr_in_message [of _ ?missing "ustr ''Missing attachments: ''" "ustr '', ''"
        "ustr '' in directory '' @ dir"]
    by auto
  ultimately show "\<exists>missing msg.
            load_template lower b64decode ex path dir lines = Inl (FileNotFoundError msg) \<and>
            missing = ?missing \<and>
            msg = ustr ''Missing attachments: '' @ py_join (ustr '', '') missing @
                  ustr '' in directory '' @ dir \<and>
            (\<forall>a \<in> set (attachments ?t). \<not> ex (path_join dir a) \<longrightarrow> a \<in> set missing \<and> substr_in a msg)"
    by blast
qed

theorem load_template_missing_attachments_witness:
  "load_template ascii_lower (\<lambda>s. Some s) (\<lambda>p. p = ustr ''attachments/a.pdf'')
       (ustr ''t.txt'') (ustr ''attachments'')
       [ustr ''Subject: Offer'', ustr ''Attachments:'' @ [0xA0] @ ustr ''a.pdf, b.pdf ,c.pdf'' @ [0x2003],
        [], ustr ''Dear {{.FirstName}}''] =
     Inl (FileNotFoundError (ustr ''Missing attachments: b.pdf, c.pdf in directory attachments'')) \<and>
   load_template ascii_lower (\<lambda>s. None) (\<lambda>p. p = ustr ''attachments/a.pdf'')
       (ustr ''t.txt'') (ustr ''attachments'')
       [ustr ''Subject: Offer'', ustr ''Encoding: Base64'', ustr ''Attachments: a.pdf'', [], ustr ''abc''] =
     Inl DecodeError"
proof -
  let ?lines = "[ustr ''Subject: Offer'', ustr ''Attachments:'' @ [0xA0] @ ustr ''a.pdf, b.pdf ,c.pdf'' @ [0x2003],
        [], ustr ''Dear {{.FirstName}}'']"
  let ?lines2 = "[ustr ''Subject: Offer'', ustr ''Encoding: Base64'', ustr ''Attachments: a.pdf'', [], ustr ''abc'']"
  have p: "parse_template ascii_lower (ustr ''t.txt'') (ustr ''attachments'') ?lines =
      \<lparr>template_path = ustr ''t.txt'', attachment_dir = ustr ''attachments'', subject = ustr ''Offer'',
       content = ustr ''Dear {{.FirstName}}'', is_html = False, is_base64 = False,
       attachments = [ustr ''a.pdf'', ustr ''b.pdf'', ustr ''c.pdf'']\<rparr>"
    by (simp add: parse_template_def parse_line_def py_strip_def is_space_def
        py_replace_def ascii_lower_def ustr_def Let_def)
  have q: "is_base64 (parse_template ascii_lower (ustr ''t.txt'') (ustr ''attachments'') ?lines2)"
    by (simp add: parse_template_def parse_line_def py_strip_def is_space_def
        py_replace_def ascii_lower_def ustr_def Let_def)
  from load_template_missing_attachments
    [of ascii_lower "ustr ''t.txt''" "ustr ''attachments''" ?lines "\<lambda>s. Some s"
      "\<lambda>p. p = ustr ''attachments/a.pdf''"]
  have 1: "load_template ascii_lower (\<lambda>s. Some s) (\<lambda>p. p = ustr ''attachments/a.pdf'')
       (ustr ''t.txt'') (ustr ''attachments'') ?lines =
     Inl (FileNotFoundError (ustr ''Missing attachments: b.pdf, c.pdf in directory attachments''))"
    unfolding p by (simp add: path_join_def ustr_def)
  from load_template_missing_attachments
    [of ascii_lower "ustr ''t.txt''" "ustr ''attachments''" ?lines2 "\<lambda>s. None"
      "\<lambda>p. p = ustr ''attachments/a.pdf''"] q
  have 2: "load_template ascii_lower (\<lambda>s. None) (\<lambda>p. p = ustr ''attachments/a.pdf'')
       (ustr ''t.txt'') (ustr ''attachments'') ?lines2 = Inl DecodeError"
    by simp
  from 1 2 show ?thesis by (intro conjI)
qed

section \<open>Properties of content instrumentation\<close>

subsection \<open>Matches of the pattern\<close>

lemma match_href_unfold:
  "match_href s =
     (if prefix href_open s \<and> takeWhile (\<lambda>c. c \<noteq> dq) (drop (length href_open) s) \<noteq> [] \<and>
         dropWhile (\<lambda>c. c \<noteq> dq) (drop (length href_open) s) \<noteq> []
      then Some (takeWhile (\<lambda>c. c \<noteq> dq) (drop (length href_open) s),
                 tl (dropWhile (\<lambda>c. c \<noteq> dq) (drop (length href_open) s)))
      else None)"
  by (simp add: match_href_def Let_def)

lemma match_href_SomeD:
  assumes "match_href s = Some (u, rest)"
  shows "s = href_open @ u @ dq # rest" and "u \<noteq> []" and "dq \<notin> set u"
proof -
  define r where "r = drop (length href_open) s"
  define tw where "tw = takeWhile (\<lambda>c. c \<noteq> dq) r"
  define dw where "dw = dropWhile (\<lambda>c. c \<noteq> dq) r"
  have m: "match_href s = (if prefix href_open s \<and> tw \<noteq> [] \<and> dw \<noteq> [] then Some (tw, tl dw) else None)"
    unfolding tw_def dw_def r_def by (rule match_href_unfold)
  have c: "prefix href_open s \<and> tw \<noteq> [] \<and> dw \<noteq> []"
  proof (rule ccontr)
    assume "\<not> (prefix href_open s \<and> tw \<noteq> [] \<and> dw \<noteq> [])"
    with m have "match_href s = None" by simp
    with assms show False by simp
  qed
  with m have "match_href s = Some (tw, tl dw)" by simp
  with assms have u: "u = tw" and t: "rest = tl dw" by simp_all
  from c have p: "prefix href_open s" and une: "u \<noteq> []" and tne: "dw \<noteq> []" using u by simp_all
  from tne have "\<not> (hd dw \<noteq> dq)" unfolding dw_def by (rule hd_dropWhile)
  then have "hd dw = dq" by simp
  moreover from tne have "dw = hd dw # tl dw" by simp
  ultimately have "dw = dq # rest" using t by simp
  moreover have "r = tw @ dw" unfolding tw_def dw_def by (rule takeWhile_dropWhile_id [symmetric])
  ultimately have r: "r = u @ dq # rest" using u by simp
  from p obtain z where z: "s = href_open @ z" by (auto simp: prefix_def)
  then have "r = z" by (simp add: r_def)
  with z r show "s = href_open @ u @ dq # rest" by simp
  show "u \<noteq> []" by (rule une)
  show "dq \<notin> set u"
  proof
    assume "dq \<in> set u"
    with u have "dq \<in> set (takeWhile (\<lambda>c. c \<noteq> dq) r)" by (simp add: tw_def)
    then have "dq \<noteq> dq" by (rule set_takeWhileD [THEN conjunct2])
    then show False by simp
  qed
qed

lemma match_href_SomeI:
  assumes "u \<noteq> []" and "dq \<notin> set u"
  shows "match_href (href_open @ u @ dq # rest) = Some (u, rest)"
proof -
  from assms(2) have "takeWhile (\<lambda>c. c \<noteq> dq) (u @ dq # rest) = u"
    by (auto simp add: takeWhile_tail)
  moreover from assms(2) have "dropWhile (\<lambda>c. c \<noteq> dq) (u @ dq # rest) = dq # rest"
    by (auto simp add: dropWhile_append3)
  ultimately show ?thesis using assms(1) by (subst match_href_unfold) simp
qed


lemma length_href_open: "length href_open = 6"
  by (simp add: href_open_def)

lemma last_href_open: "last href_open = dq"
  by (simp add: href_open_def)

lemma prefix_take_eq: "prefix a s = (take (length a) s = a)"
proof
  assume "prefix a s"
  then obtain z where "s = a @ z" by (auto simp: prefix_def)
  then show "take (length a) s = a" by simp
next
  assume "take (length a) s = a"
  then have "prefix (take (length a) s) s = prefix a s" by simp
  then show "prefix a s" using take_is_prefix by blast
qed

lemma match_href_context:
  assumes "p \<noteq> []"
  shows "(match_href (p @ href_open @ x) = None) = (match_href (p @ href_open @ y) = None)"
proof -
  define q where "q = drop (length href_open) (p @ href_open)"
  define b where "b = (take (length href_open) (p @ href_open) = href_open)"
  have pre: "prefix href_open (p @ href_open @ z) = b" for z
  proof -
    have "prefix href_open (p @ href_open @ z) =
          (take (length href_open) (p @ href_open @ z) = href_open)"
      by (rule prefix_take_eq)
    also have "take (length href_open) (p @ href_open @ z) = take (length href_open) (p @ href_open)"
      by simp
    finally show ?thesis by (simp only: b_def)
  qed
  have dr: "drop (length href_open) (p @ href_open @ z) = q @ z" for z
    by (simp add: q_def)
  have "length q = length p" by (simp add: q_def)
  with assms have qne: "q \<noteq> []" by auto
  have "p @ href_open = take (length href_open) (p @ href_open) @ q"
    by (simp only: q_def append_take_drop_id)
  with qne have "last (p @ href_open) = last q" by (metis last_appendR)
  moreover have "last (p @ href_open) = dq" by (simp add: href_open_def)
  ultimately have "last q = dq" by simp
  with qne have qd: "dq \<in> set q" by (metis last_in_set)
  have tw: "takeWhile (\<lambda>c. c \<noteq> dq) (q @ z) = takeWhile (\<lambda>c. c \<noteq> dq) q" for z
    by (rule takeWhile_append1 [OF qd]) simp
  have dw: "dropWhile (\<lambda>c. c \<noteq> dq) (q @ z) \<noteq> []" for z
    using qd by (simp add: dropWhile_eq_Nil_conv)
  have "(match_href (p @ href_open @ z) = None) =
        (\<not> (b \<and> takeWhile (\<lambda>c. c \<noteq> dq) q \<noteq> []))" for z
  proof -
    define d where "d = dropWhile (\<lambda>c. c \<noteq> dq) (q @ z)"
    have "match_href (p @ href_open @ z) =
        (if b \<and> takeWhile (\<lambda>c. c \<noteq> dq) q \<noteq> [] \<and> d \<noteq> []
         then Some (takeWhile (\<lambda>c. c \<noteq> dq) q, tl d) else None)"
      unfolding d_def by (simp only: match_href_unfold pre dr tw)
    moreover have "d \<noteq> []" unfolding d_def by (rule dw)
    ultimately show ?thesis by simp
  qed
  then show ?thesis by simp
qed

lemma re_sub_keeps_no_match:
  "(\<And>u. \<exists>x. repl u = href_open @ x) \<Longrightarrow> p \<noteq> [] \<Longrightarrow> match_href (p @ s) = None \<Longrightarrow>
   match_href (p @ re_sub_href repl s) = None"
proof (induction repl s arbitrary: p rule: re_sub_href.induct)
  case (1 repl)
  then show ?case by simp
next
  case (2 repl c cs)
  show ?case
  proof (cases "match_href (c # cs)")
    case None
    from "2.prems"(3) have "match_href ((p @ [c]) @ cs) = None" by simp
    with "2.IH"(1) [OF None "2.prems"(1), of "p @ [c]"]
    have "match_href ((p @ [c]) @ re_sub_href repl cs) = None" by simp
    with None show ?thesis by simp
  next
    case (Some ur)
    obtain u rest where ur: "ur = (u, rest)" by (cases ur)
    from Some ur have "match_href (c # cs) = Some (u, rest)" by simp
    from match_href_SomeD(1) [OF this] have cs: "c # cs = href_open @ u @ dq # rest" .
    from "2.prems"(1) [of u] obtain x where x: "repl u = href_open @ x" by (elim exE)
    from "2.prems"(3) cs have "match_href (p @ href_open @ u @ dq # rest) = None" by simp
    with match_href_context [OF "2.prems"(2), of "x @ re_sub_href repl rest" "u @ dq # rest"]
    have "match_href (p @ href_open @ x @ re_sub_href repl rest) = None" by simp
    with Some ur x show ?thesis by simp
  qed
qed

lemma findall_re_sub:
  assumes repl: "\<And>u. repl u = href_open @ T u @ [dq]"
    and T: "\<And>u. T u \<noteq> [] \<and> dq \<notin> set (T u)"
  shows "re_findall_href (re_sub_href repl s) = map T (re_findall_href s)"
proof (induction s rule: re_findall_href.induct)
  case 1
  then show ?case by simp
next
  case (2 c cs)
  show ?case
  proof (cases "match_href (c # cs)")
    case None
    have ex: "\<And>u. \<exists>x. repl u = href_open @ x" using repl by blast
    from None have "match_href ([c] @ cs) = None" by simp
    from re_sub_keeps_no_match [OF ex _ this]
    have n: "match_href (c # re_sub_href repl cs) = None" by simp
    have "re_findall_href (re_sub_href repl (c # cs)) = re_findall_href (c # re_sub_href repl cs)"
      using None by simp
    also have "\<dots> = re_findall_href (re_sub_href repl cs)" using n by simp
    also have "\<dots> = map T (re_findall_href cs)" using "2.IH"(1) [OF None] .
    also have "\<dots> = map T (re_findall_href (c # cs))" using None by simp
    finally show ?thesis .
  next
    case (Some ur)
    obtain u rest where ur: "ur = (u, rest)" by (cases ur)
    with Some have m: "match_href (c # cs) = Some (u, rest)" by simp
    from T [of u] have "match_href (href_open @ T u @ dq # re_sub_href repl rest) =
        Some (T u, re_sub_href repl rest)"
      by (intro match_href_SomeI) simp_all
    moreover have "re_sub_href repl (c # cs) = href_open @ T u @ dq # re_sub_href repl rest"
      using m repl by simp
    moreover obtain h t where ht: "href_open @ T u @ dq # re_sub_href repl rest = h # t"
      by (cases "href_open @ T u @ dq # re_sub_href repl rest") (simp_all add: href_open_def)
    ultimately have "re_findall_href (re_sub_href repl (c # cs)) =
        T u # re_findall_href (re_sub_href repl rest)"
      by simp
    also have "\<dots> = T u # map T (re_findall_href rest)"
      using "2.IH"(2) [OF Some ur [symmetric]] by simp
    also have "\<dots> = map T (re_findall_href (c # cs))" using m by simp
    finally show ?thesis .
  qed
qed

lemma no_href_unchanged:
  "re_findall_href s = [] \<Longrightarrow> re_sub_href repl s = s"
proof (induction s rule: re_findall_href.induct)
  case 1
  then show ?case by simp
next
  case (2 c cs)
  show ?case
  proof (cases "match_href (c # cs)")
    case None
    with "2.prems" have "re_findall_href cs = []" by simp
    from "2.IH"(1) [OF None this] None show ?thesis by simp
  next
    case (Some ur)
    obtain u rest where "ur = (u, rest)" by (cases ur)
    with Some "2.prems" show ?thesis by simp
  qed
qed

subsection \<open>Encoding and decoding of query values\<close>

lemma hex_upper_props:
  assumes "n < 16"
  shows "hex_val (hex_upper n) = Some n" and "hex_upper n \<noteq> CHR ''+''" and "hex_upper n \<noteq> dq"
proof -
  from assms consider "n = 0" | "n = 1" | "n = 2" | "n = 3" | "n = 4" | "n = 5" | "n = 6" | "n = 7"
    | "n = 8" | "n = 9" | "n = 10" | "n = 11" | "n = 12" | "n = 13" | "n = 14" | "n = 15"
    by atomize_elim arith
  then have "hex_val (hex_upper n) = Some n \<and> hex_upper n \<noteq> CHR ''+'' \<and> hex_upper n \<noteq> dq"
    by cases (simp_all add: hex_upper_def hex_val_def dq_def)
  then show "hex_val (hex_upper n) = Some n" and "hex_upper n \<noteq> CHR ''+''" and "hex_upper n \<noteq> dq"
    by simp_all
qed

lemma of_char_less_256: "(of_char c :: nat) < 256"
proof -
  have "(of_char c :: nat) mod 256 = of_char c" by simp
  moreover have "(of_char c :: nat) mod 256 < 256" by (rule mod_less_divisor) simp
  ultimately show ?thesis by simp
qed

lemma unquote_plain: "c \<noteq> CHR ''%'' \<Longrightarrow> unquote (c # r) = c # unquote r"
  by (cases r rule: unquote.cases) simp_all

lemma unquote_escape:
  assumes "hex_val a = Some h" and "hex_val b = Some l"
  shows "unquote (CHR ''%'' # a # b # r) = char_of (h * 16 + l) # unquote r"
  using assms by simp

lemma unreserved_not_special:
  "is_unreserved c \<Longrightarrow> c \<noteq> CHR ''%'' \<and> c \<noteq> CHR ''+'' \<and> c \<noteq> dq \<and> c \<noteq> CHR '' ''"
  by (auto simp: is_unreserved_def dq_def)

lemma unquote_quote_char:
  "unquote (map (\<lambda>c. if c = CHR ''+'' then CHR '' '' else c) (quote_char c) @ r) = c # unquote r"
proof (cases "is_unreserved c")
  case True
  with unreserved_not_special [OF True] show ?thesis
    by (simp add: quote_char_def unquote_plain)
next
  case False
  show ?thesis
  proof (cases "c = CHR '' ''")
    case True
    with False show ?thesis by (simp add: quote_char_def unquote_plain)
  next
    case sp: False
    define n where "n = (of_char c :: nat)"
    have "n < 16 * 16" using of_char_less_256 [of c] by (simp add: n_def)
    then have n: "n div 16 < 16" "n mod 16 < 16" by (simp_all add: div_less_iff_less_mult)
    from hex_upper_props [OF n(1)] have hi: "hex_val (hex_upper (n div 16)) = Some (n div 16)"
      "hex_upper (n div 16) \<noteq> CHR ''+''" by simp_all
    from hex_upper_props [OF n(2)] have lo: "hex_val (hex_upper (n mod 16)) = Some (n mod 16)"
      "hex_upper (n mod 16) \<noteq> CHR ''+''" by simp_all
    have "char_of (n div 16 * 16 + n mod 16) = c" by (simp add: n_def)
    with False sp hi lo unquote_escape [OF hi(1) lo(1)] show ?thesis
      by (simp add: quote_char_def n_def del: unquote.simps)
  qed
qed

lemma unquote_plus_quote_plus: "unquote_plus (quote_plus s) = s"
proof -
  have "unquote (map (\<lambda>c. if c = CHR ''+'' then CHR '' '' else c) (quote_plus s) @ r) = s @ unquote r" for r
  proof (induction s)
    case Nil
    then show ?case by (simp add: quote_plus_def)
  next
    case (Cons c s)
    have "quote_plus (c # s) = quote_char c @ quote_plus s" by (simp add: quote_plus_def)
    with Cons unquote_quote_char show ?case by simp
  qed
  from this [of "[]"] show ?thesis by (simp add: unquote_plus_def)
qed

lemma quote_char_no_dq: "dq \<notin> set (quote_char c)"
proof -
  have "(of_char c :: nat) < 16 * 16" using of_char_less_256 [of c] by simp
  then have d: "(of_char c :: nat) div 16 < 16" and m: "(of_char c :: nat) mod 16 < 16"
    by (simp_all add: div_less_iff_less_mult)
  have "hex_upper (of_char c div 16) \<noteq> dq" "hex_upper (of_char c mod 16) \<noteq> dq"
    using hex_upper_props(3) [OF d] hex_upper_props(3) [OF m] by simp_all
  then show ?thesis
    using unreserved_not_special [of c] by (auto simp: quote_char_def dq_def)
qed

lemma quote_plus_no_dq: "dq \<notin> set (quote_plus s)"
  using quote_char_no_dq by (auto simp: quote_plus_def)

lemma hex_char_unreserved: "c \<in> set ''0123456789abcdef'' \<Longrightarrow> is_unreserved c"
  by (auto simp: is_unreserved_def)

lemma quote_plus_unreserved: "\<forall>c \<in> set s. is_unreserved c \<Longrightarrow> quote_plus s = s"
  by (induction s) (simp_all add: quote_plus_def quote_char_def)

lemma link_tag_props:
  "length (link_tag eid u) = 12" "set (link_tag eid u) \<subseteq> set ''0123456789abcdef''"
  "quote_plus (link_tag eid u) = link_tag eid u"
proof -
  show "length (link_tag eid u) = 12" by (simp add: link_tag_def length_sha256_hexdigest)
  show s: "set (link_tag eid u) \<subseteq> set ''0123456789abcdef''"
    unfolding link_tag_def using set_sha256_hexdigest set_take_subset by fast
  then have "\<forall>c \<in> set (link_tag eid u). is_unreserved c" using hex_char_unreserved by blast
  then show "quote_plus (link_tag eid u) = link_tag eid u" by (rule quote_plus_unreserved)
qed

lemma tracking_url_eq:
  "tracking_url eid td u =
     ''https://'' @ td @ ''/click?eid='' @ quote_plus eid @ ''&url='' @ quote_plus u @
     ''&tid='' @ link_tag eid u"
proof -
  have "quote_plus ''eid'' = ''eid''" "quote_plus ''url'' = ''url''" "quote_plus ''tid'' = ''tid''"
    by (simp_all add: quote_plus_def quote_char_def is_unreserved_def)
  then show ?thesis
    by (simp add: tracking_url_def urlencode_def link_tag_props(3))
qed

lemma tracking_url_no_dq: "dq \<notin> set td \<Longrightarrow> dq \<notin> set (tracking_url eid td u)"
proof -
  assume "dq \<notin> set td"
  moreover have "dq \<notin> set (link_tag eid u)" using link_tag_props(2) [of eid u] by (auto simp: dq_def)
  ultimately show ?thesis
    using quote_plus_no_dq by (simp add: tracking_url_eq) (simp add: dq_def)
qed

text \<open>
  C6. An occurrence of \<open>href="..."\<close> is a match of the pattern of the code,
  \<open>href="([^"]+)"\<close>, found from the left without overlap; \<open>re_findall_href\<close> lists the
  URLs of the occurrences. If the content has no occurrence, \<open>generate_tracking_links\<close>
  returns it as it is. If it has N of them, the result has exactly N, in the same order,
  and the URL of each is the tracking URL of the original one (for a tracking domain
  without a double quote, which would end the attribute). A tracking URL carries the
  message identifier and the original URL, each percent-encoded and recovered by
  \<open>unquote_plus\<close>, and the tag: the first 12 of the 64 hexadecimal characters of the
  SHA-256 digest of \<open>messageId:originalUrl\<close>.
\<close>

theorem generate_tracking_links_spec:
  "(re_findall_href body = [] \<longrightarrow> generate_tracking_links body eid td = body) \<and>
   (dq \<notin> set td \<longrightarrow>
      re_findall_href (generate_tracking_links body eid td) =
      map (tracking_url eid td) (re_findall_href body)) \<and>
   (\<forall>u. tracking_url eid td u =
          ''https://'' @ td @ ''/click?eid='' @ quote_plus eid @ ''&url='' @ quote_plus u @
          ''&tid='' @ link_tag eid u \<and>
        unquote_plus (quote_plus eid) = eid \<and> unquote_plus (quote_plus u) = u \<and>
        link_tag eid u = take 12 (sha256_hexdigest (eid @ '':'' @ u)) \<and>
        length (link_tag eid u) = 12 \<and> set (link_tag eid u) \<subseteq> set ''0123456789abcdef'')"
proof (intro conjI impI allI)
  assume "re_findall_href body = []"
  then show "generate_tracking_links body eid td = body"
    unfolding generate_tracking_links_def by (rule no_href_unchanged)
next
  assume d: "dq \<notin> set td"
  have "tracking_url eid td u \<noteq> [] \<and> dq \<notin> set (tracking_url eid td u)" for u
    using tracking_url_no_dq [OF d] by (simp add: tracking_url_eq)
  then show "re_findall_href (generate_tracking_links body eid td) =
      map (tracking_url eid td) (re_findall_href body)"
    unfolding generate_tracking_links_def
    by (intro findall_re_sub) (simp_all add: replace_link_def)
next
  fix u
  show "tracking_url eid td u =
          ''https://'' @ td @ ''/click?eid='' @ quote_plus eid @ ''&url='' @ quote_plus u @
          ''&tid='' @ link_tag eid u" by (rule tracking_url_eq)
  show "unquote_plus (quote_plus eid) = eid" "unquote_plus (quote_plus u) = u"
    by (rule unquote_plus_quote_plus)+
  show "link_tag eid u = take 12 (sha256_hexdigest (eid @ '':'' @ u))" by (simp add: link_tag_def)
  show "length (link_tag eid u) = 12" "set (link_tag eid u) \<subseteq> set ''0123456789abcdef''"
    by (rule link_tag_props)+
qed

theorem generate_tracking_links_spec_witness:
  \<open>generate_tracking_links ''<p>no links here</p>'' ''e1'' ''t.example.org'' = ''<p>no links here</p>'' \<and>
   re_findall_href
     (generate_tracking_links ''<a href="http://x.org/a b">x</a>'' ''e1'' ''t.example.org'') =
     [''https://t.example.org/click?eid=e1&url=http%3A%2F%2Fx.org%2Fa+b&tid='' @
      link_tag ''e1'' ''http://x.org/a b''] \<and>
   unquote_plus ''http%3A%2F%2Fx.org%2Fa+b'' = ''http://x.org/a b'' \<and>
   length (link_tag ''e1'' ''http://x.org/a b'') = 12\<close>
proof -
  have 1: "re_findall_href ''<p>no links here</p>'' = []"
    by (simp add: match_href_def href_open_def)
  have 2: "dq \<notin> set ''t.example.org''" by (simp add: dq_def)
  have 3: \<open>re_findall_href ''<a href="http://x.org/a b">x</a>'' = [''http://x.org/a b'']\<close>
    by (simp add: match_href_def href_open_def dq_def)
  have 4: "quote_plus ''http://x.org/a b'' = ''http%3A%2F%2Fx.org%2Fa+b''" "quote_plus ''e1'' = ''e1''"
    by (simp_all add: quote_plus_def quote_char_def is_unreserved_def hex_upper_def)
  note a = generate_tracking_links_spec [of "''<p>no links here</p>''" "''e1''" "''t.example.org''"]
  note b = generate_tracking_links_spec
    [of \<open>''<a href="http://x.org/a b">x</a>''\<close> "''e1''" "''t.example.org''"]
  from a 1 have c1: "generate_tracking_links ''<p>no links here</p>'' ''e1'' ''t.example.org'' =
      ''<p>no links here</p>''" by blast
  from b 2 have r: \<open>re_findall_href
     (generate_tracking_links ''<a href="http://x.org/a b">x</a>'' ''e1'' ''t.example.org'') =
     map (tracking_url ''e1'' ''t.example.org'')
       (re_findall_href ''<a href="http://x.org/a b">x</a>'')\<close> by blast
  from b have "tracking_url ''e1'' ''t.example.org'' ''http://x.org/a b'' =
      ''https://'' @ ''t.example.org'' @ ''/click?eid='' @ quote_plus ''e1'' @ ''&url='' @
      quote_plus ''http://x.org/a b'' @ ''&tid='' @ link_tag ''e1'' ''http://x.org/a b''"
    and u: "unquote_plus (quote_plus ''http://x.org/a b'') = ''http://x.org/a b''"
    and l: "length (link_tag ''e1'' ''http://x.org/a b'') = 12" by blast+
  then have t: "tracking_url ''e1'' ''t.example.org'' ''http://x.org/a b'' =
      ''https://t.example.org/click?eid=e1&url=http%3A%2F%2Fx.org%2Fa+b&tid='' @
      link_tag ''e1'' ''http://x.org/a b''"
    unfolding 4 by simp
  have r2: \<open>re_findall_href
     (generate_tracking_links ''<a href="http://x.org/a b">x</a>'' ''e1'' ''t.example.org'') =
     [''https://t.example.org/click?eid=e1&url=http%3A%2F%2Fx.org%2Fa+b&tid='' @
      link_tag ''e1'' ''http://x.org/a b'']\<close>
    unfolding r 3 using t by simp
  from u have u2: "unquote_plus ''http%3A%2F%2Fx.org%2Fa+b'' = ''http://x.org/a b''"
    unfolding 4 .
  from c1 r2 u2 l show ?thesis by (intro conjI)
qed

section \<open>Properties of identity rotation and transport\<close>

subsection \<open>Rate limit of the refresh\<close>

text \<open>
  C3, as stated, fails on the send path. Before each attempt \<open>_send_via_smtp\<close> and
  \<open>_send_via_api\<close> call \<open>EmailSender.refresh_tor_circuit\<close>, which keeps no time of the last
  refresh and reads no interval: with identity routing on and the control channel
  working, every call signals a new circuit and waits for it to settle. One \<open>Send\<close> whose
  first attempt fails signals twice, 15 seconds apart here.
\<close>

theorem send_path_refresh_not_rate_limited:
  "send_via_smtp
     \<lparr>controller = always ControlOk, transport = fails_before 1, socketobject_defined = False\<rparr>
     \<lparr>use_tor = True, tor_force_tor = False, circuit_build_timeout = 10, max_retries = 3, retry_delay = 5\<rparr> =
   (Inr (),
    \<lparr>use_tor = True, tor_force_tor = False, circuit_build_timeout = 10, max_retries = 3, retry_delay = 5\<rparr>,
    [Authenticate, Newnym, Settle 10, Attempt, RetryDelay 5, Authenticate, Newnym, Settle 10, Attempt])"
  by (simp add: send_via_smtp_def smtp_turn_def refresh_tor_circuit_def always_def fails_before_def)

text \<open>
  C3, amended. \<open>TorHandler.refresh_circuit\<close> is rate-limited: a request made less than the
  configured interval after the last refresh signal of the handler (a successful refresh
  is such a signal, and records its time in \<open>last_refresh\<close>) returns \<open>False\<close>, changes
  nothing and causes no event: no probe, no signal, no settle wait. The refresh of the
  send path, \<open>EmailSender.refresh_tor_circuit\<close>, is not rate-limited: with identity routing
  on and the control channel working it signals at every call, and waits for the settle
  time (of a negative settle time \<open>time.sleep\<close> raises once the signal is sent, which ends
  the call with the error under \<open>force_tor\<close> and is passed over otherwise).
\<close>

theorem refresh_rate_limit:
  "(t0 \<le> last_refresh h \<and> current_time - t0 < refresh_interval h \<longrightarrow>
      refresh_circuit h current_time ctl old_ip new_ip = (Inr False, h, [])) \<and>
   (\<forall>h' evs. refresh_circuit h current_time ctl old_ip new_ip = (Inr True, h', evs) \<longrightarrow>
      last_refresh h' = current_time \<and> Newnym \<in> set evs) \<and>
   (use_tor cfg \<longrightarrow>
      refresh_tor_circuit cfg ControlOk =
        (if 0 \<le> circuit_build_timeout cfg
         then (Inr (), [Authenticate, Newnym, Settle (circuit_build_timeout cfg)])
         else (if tor_force_tor cfg then Inl TorRefreshError else Inr (), [Authenticate, Newnym])))"
proof (intro conjI impI allI)
  assume "t0 \<le> last_refresh h \<and> current_time - t0 < refresh_interval h"
  then have "current_time - last_refresh h < refresh_interval h" by linarith
  then show "refresh_circuit h current_time ctl old_ip new_ip = (Inr False, h, [])"
    by (simp add: refresh_circuit_def)
next
  fix h' evs
  assume "refresh_circuit h current_time ctl old_ip new_ip = (Inr True, h', evs)"
  then show "last_refresh h' = current_time" "Newnym \<in> set evs"
    by (auto simp: refresh_circuit_def refresh_failed_def Let_def split: if_splits control.splits)
next
  assume "use_tor cfg"
  then show "refresh_tor_circuit cfg ControlOk =
        (if 0 \<le> circuit_build_timeout cfg
         then (Inr (), [Authenticate, Newnym, Settle (circuit_build_timeout cfg)])
         else (if tor_force_tor cfg then Inl TorRefreshError else Inr (), [Authenticate, Newnym]))"
    by (simp add: refresh_tor_circuit_def)
qed

theorem refresh_rate_limit_witness:
  "refresh_circuit
     \<lparr>enabled = True, control_password = None, refresh_interval = 600, circuit_timeout = 10,
      force_tor = False, last_refresh = 1000, current_ip = Some ''198.51.100.1''\<rparr>
     1300 ControlOk (Some ''198.51.100.1'') (Some ''198.51.100.2'') =
   (Inr False,
    \<lparr>enabled = True, control_password = None, refresh_interval = 600, circuit_timeout = 10,
      force_tor = False, last_refresh = 1000, current_ip = Some ''198.51.100.1''\<rparr>, []) \<and>
   refresh_tor_circuit
     \<lparr>use_tor = True, tor_force_tor = False, circuit_build_timeout = 10, max_retries = 3, retry_delay = 5\<rparr>
     ControlOk = (Inr (), [Authenticate, Newnym, Settle 10])"
  using refresh_rate_limit
    [of 1000 "\<lparr>enabled = True, control_password = None, refresh_interval = 600, circuit_timeout = 10,
      force_tor = False, last_refresh = 1000, current_ip = Some ''198.51.100.1''\<rparr>"
      1300 ControlOk "Some ''198.51.100.1''" "Some ''198.51.100.2''"
      "\<lparr>use_tor = True, tor_force_tor = False, circuit_build_timeout = 10, max_retries = 3, retry_delay = 5\<rparr>"]
  by simp

subsection \<open>Retry policy\<close>

lemma refresh_events_not_retry: "retry_events (snd (refresh_tor_circuit cfg c)) = []"
  by (cases c) (simp_all add: refresh_tor_circuit_def retry_events_def)

lemma retry_events_append: "retry_events (a @ b) = retry_events a @ retry_events b"
  by (simp add: retry_events_def)

lemma smtp_turn_delivered:
  assumes "transport env i = Delivered"
  shows "\<exists>cfg' new. smtp_turn env N d cfg i = Return (Inr ()) cfg' new \<and>
           retry_events new = [Attempt] \<and> (use_tor cfg' \<longrightarrow> use_tor cfg)"
proof -
  obtain r evs where r: "refresh_tor_circuit cfg (controller env i) = (r, evs)"
    by (cases "refresh_tor_circuit cfg (controller env i)")
  with refresh_events_not_retry [of cfg "controller env i"] have "retry_events evs = []" by simp
  with assms r show ?thesis
    by (cases r) (auto simp: smtp_turn_def retry_events_append retry_events_def)
qed

lemma smtp_turn_again:
  assumes "transport env i \<noteq> Delivered" and "int (i + 1) < N" and "0 \<le> d"
    and "use_tor cfg \<and> \<not> socketobject_defined env \<longrightarrow> transport env i \<noteq> Disconnected"
  shows "\<exists>cfg' new. smtp_turn env N d cfg i = Again cfg' new \<and>
           retry_events new = [Attempt, RetryDelay d] \<and> (use_tor cfg' \<longrightarrow> use_tor cfg)"
proof -
  obtain r evs where r: "refresh_tor_circuit cfg (controller env i) = (r, evs)"
    by (cases "refresh_tor_circuit cfg (controller env i)")
  with refresh_events_not_retry [of cfg "controller env i"] have "retry_events evs = []" by simp
  with assms r show ?thesis
    by (cases r; cases "transport env i")
       (auto simp: smtp_turn_def retry_events_append retry_events_def)
qed

lemma smtp_turn_last:
  assumes "transport env i \<noteq> Delivered" and "\<not> int (i + 1) < N"
  shows "\<exists>err cfg' new. smtp_turn env N d cfg i = Return (Inl err) cfg' new \<and>
           retry_events new = [Attempt] \<and> (use_tor cfg' \<longrightarrow> use_tor cfg)"
proof -
  obtain r evs where r: "refresh_tor_circuit cfg (controller env i) = (r, evs)"
    by (cases "refresh_tor_circuit cfg (controller env i)")
  with refresh_events_not_retry [of cfg "controller env i"] have "retry_events evs = []" by simp
  with assms r show ?thesis
    by (cases r; cases "transport env i")
       (auto simp: smtp_turn_def retry_events_append retry_events_def)
qed

lemma api_refresh_cases:
  obtains evs where "(if use_tor cfg then refresh_tor_circuit cfg c else (Inr (), [])) = (Inr (), evs)"
      "fst (refresh_tor_circuit cfg c) = Inr ()" "retry_events evs = []"
  | evs where "(if use_tor cfg then refresh_tor_circuit cfg c else (Inr (), [])) = (Inl TorRefreshError, evs)"
      "fst (refresh_tor_circuit cfg c) = Inl TorRefreshError" "retry_events evs = []"
  by (cases c; cases "use_tor cfg"; cases "tor_force_tor cfg"; cases "0 \<le> circuit_build_timeout cfg")
     (auto simp: refresh_tor_circuit_def retry_events_def)

lemma api_turn_delivered:
  assumes "api_attempt env cfg i = Delivered"
  shows "\<exists>new. api_turn env N d cfg i = Return (Inr ()) cfg new \<and> retry_events new = [Attempt]"
proof (cases rule: api_refresh_cases [of cfg "controller env i"])
  case (1 evs)
  with assms show ?thesis
    by (simp add: api_turn_def api_attempt_def retry_events_append) (simp add: retry_events_def)
next
  case (2 evs)
  with assms show ?thesis by (simp add: api_attempt_def)
qed

lemma api_turn_again:
  assumes "api_attempt env cfg i \<noteq> Delivered" and "int (i + 1) < N" and "0 \<le> d"
  shows "\<exists>new. api_turn env N d cfg i = Again cfg new \<and>
           retry_events new = api_requests env cfg i @ [RetryDelay d]"
proof (cases rule: api_refresh_cases [of cfg "controller env i"])
  case (1 evs)
  with assms show ?thesis
    by (cases "transport env i")
       (simp_all add: api_turn_def api_attempt_def api_requests_def retry_events_append,
        simp_all add: retry_events_def)
next
  case (2 evs)
  with assms show ?thesis
    by (simp add: api_turn_def api_requests_def retry_events_append) (simp add: retry_events_def)
qed

lemma api_turn_last:
  assumes "api_attempt env cfg i \<noteq> Delivered" and "\<not> int (i + 1) < N"
  shows "\<exists>err new. api_turn env N d cfg i = Return (Inl err) cfg new \<and>
           retry_events new = api_requests env cfg i"
proof (cases rule: api_refresh_cases [of cfg "controller env i"])
  case (1 evs)
  with assms show ?thesis
    by (cases "transport env i")
       (simp_all add: api_turn_def api_attempt_def api_requests_def retry_events_append,
        simp_all add: retry_events_def)
next
  case (2 evs)
  with assms show ?thesis
    by (simp add: api_turn_def api_requests_def)
qed

text \<open>
  The loop, from turn \<open>r\<close> on, when every turn before \<open>m\<close> asks for another one and turn
  \<open>m\<close> returns: the result is that of turn \<open>m\<close>, and the attempts and waits are those of
  the turns in their order.
\<close>

lemma retry_loop_returns:
  assumes F: "\<And>cfg. I cfg \<Longrightarrow>
                \<exists>res cfg' new. body cfg m = Return res cfg' new \<and> P res \<and>
                  retry_events new = fin \<and> I cfg'"
    and B: "\<And>cfg i. I cfg \<Longrightarrow> i < m \<Longrightarrow>
                \<exists>cfg' new. body cfg i = Again cfg' new \<and>
                  retry_events new = calls i @ [RetryDelay d] \<and> I cfg'"
    and m: "int m < N"
  shows "r \<le> m \<Longrightarrow> I cfg \<Longrightarrow>
         \<exists>res cfg' evs'. retry_loop body N cfg r evs = (res, cfg', evs') \<and> P res \<and> I cfg' \<and>
           retry_events evs' =
             retry_events evs @ concat (map (\<lambda>i. calls i @ [RetryDelay d]) [r..<m]) @ fin"
proof (induction "m - r" arbitrary: r cfg evs)
  case 0
  then have rm: "r = m" by simp
  from F [OF "0.prems"(2)] obtain res cfg' new where
    f: "body cfg m = Return res cfg' new" "P res" "retry_events new = fin" "I cfg'" by blast
  have "retry_loop body N cfg r evs = (res, cfg', evs @ new)"
    using f(1) m rm by (subst retry_loop.simps) (simp del: retry_loop.simps)
  with f rm show ?case by (simp add: retry_events_append)
next
  case (Suc j)
  then have lt: "r < m" by simp
  with m have rN: "int r < N" by simp
  from B [OF Suc.prems(2) lt] obtain cfg1 new where
    b: "body cfg r = Again cfg1 new" "retry_events new = calls r @ [RetryDelay d]" "I cfg1" by blast
  from Suc.hyps(2) lt have j: "j = m - (r + 1)" by simp
  from lt have le: "r + 1 \<le> m" by simp
  from Suc.hyps(1) [OF j le b(3), of "evs @ new"] obtain res cfg' evs' where
    ih: "retry_loop body N cfg1 (r + 1) (evs @ new) = (res, cfg', evs')" "P res" "I cfg'"
      "retry_events evs' =
         retry_events (evs @ new) @ concat (map (\<lambda>i. calls i @ [RetryDelay d]) [r + 1..<m]) @ fin"
    by blast
  have "retry_loop body N cfg r evs = (res, cfg', evs')"
    using b(1) rN ih(1) by (subst retry_loop.simps) (simp del: retry_loop.simps)
  moreover have "[r..<m] = r # [r + 1..<m]" using lt by (simp add: upt_conv_Cons)
  ultimately show ?case using ih b(2) by (simp add: retry_events_append)
qed

lemma concat_const_turns:
  "concat (map (\<lambda>i. [Attempt, RetryDelay d]) [0..<n]) = concat (replicate n [Attempt, RetryDelay d])"
proof -
  have "map (\<lambda>i. [Attempt, RetryDelay d]) [0..<n] = replicate n [Attempt, RetryDelay d]"
    by (simp add: map_replicate_const)
  then show ?thesis by simp
qed

lemma smtp_returns:
  assumes m: "int m < N" and d: "0 \<le> d"
    and fail: "\<forall>i < m. transport env i \<noteq> Delivered"
    and slip: "use_tor cfg \<and> \<not> socketobject_defined env \<longrightarrow> (\<forall>i < m. transport env i \<noteq> Disconnected)"
  shows "(transport env m = Delivered \<longrightarrow>
           (\<exists>cfg' evs. retry_loop (smtp_turn env N d) N cfg 0 [] = (Inr (), cfg', evs) \<and>
              retry_events evs = concat (replicate m [Attempt, RetryDelay d]) @ [Attempt])) \<and>
         (transport env m \<noteq> Delivered \<and> \<not> int (m + 1) < N \<longrightarrow>
           (\<exists>err cfg' evs. retry_loop (smtp_turn env N d) N cfg 0 [] = (Inl err, cfg', evs) \<and>
              retry_events evs = concat (replicate m [Attempt, RetryDelay d]) @ [Attempt]))"
proof (intro conjI impI)
  let ?I = "\<lambda>c::sender_config. use_tor c \<longrightarrow> use_tor cfg"
  have B: "\<exists>cfg' new. smtp_turn env N d c i = Again cfg' new \<and>
             retry_events new = [Attempt] @ [RetryDelay d] \<and> ?I cfg'"
    if "?I c" "i < m" for c :: sender_config and i
  proof -
    from that(2) fail have 1: "transport env i \<noteq> Delivered" by blast
    from that(2) m have 2: "int (i + 1) < N" by simp
    from that slip have 3: "use_tor c \<and> \<not> socketobject_defined env \<longrightarrow> transport env i \<noteq> Disconnected"
      by blast
    from smtp_turn_again [OF 1 2 d 3] that(1) show ?thesis by auto
  qed
  have e: "retry_events [] = []" by (simp add: retry_events_def)
  {
    assume del: "transport env m = Delivered"
    have F: "\<exists>res cfg' new. smtp_turn env N d c m = Return res cfg' new \<and> res = Inr () \<and>
               retry_events new = [Attempt] \<and> ?I cfg'" if "?I c" for c :: sender_config
      using smtp_turn_delivered [OF del, of N d c] that by auto
    from retry_loop_returns [where I = ?I and P = "\<lambda>res. res = Inr ()" and body = "smtp_turn env N d"
        and calls = "\<lambda>i. [Attempt]" and fin = "[Attempt]" and r = 0 and evs = "[]" and cfg = cfg,
        OF F B m]
    show "\<exists>cfg' evs. retry_loop (smtp_turn env N d) N cfg 0 [] = (Inr (), cfg', evs) \<and>
              retry_events evs = concat (replicate m [Attempt, RetryDelay d]) @ [Attempt]"
      by (auto simp: e concat_const_turns simp del: retry_loop.simps)
  }
  {
    assume last: "transport env m \<noteq> Delivered \<and> \<not> int (m + 1) < N"
    have F: "\<exists>res cfg' new. smtp_turn env N d c m = Return res cfg' new \<and> (\<exists>err. res = Inl err) \<and>
               retry_events new = [Attempt] \<and> ?I cfg'" if "?I c" for c :: sender_config
      using smtp_turn_last [of env m N d c] last that by auto
    from retry_loop_returns [where I = ?I and P = "\<lambda>res. \<exists>err. res = Inl err" and body = "smtp_turn env N d"
        and calls = "\<lambda>i. [Attempt]" and fin = "[Attempt]" and r = 0 and evs = "[]" and cfg = cfg,
        OF F B m]
    show "\<exists>err cfg' evs. retry_loop (smtp_turn env N d) N cfg 0 [] = (Inl err, cfg', evs) \<and>
              retry_events evs = concat (replicate m [Attempt, RetryDelay d]) @ [Attempt]"
      by (auto simp: e concat_const_turns simp del: retry_loop.simps)
  }
qed

lemma api_returns:
  assumes m: "int m < N" and d: "0 \<le> d"
    and fail: "\<forall>i < m. api_attempt env cfg i \<noteq> Delivered"
  shows "(api_attempt env cfg m = Delivered \<longrightarrow>
           (\<exists>evs. retry_loop (api_turn env N d) N cfg 0 [] = (Inr (), cfg, evs) \<and>
              retry_events evs =
                concat (map (\<lambda>i. api_requests env cfg i @ [RetryDelay d]) [0..<m]) @ [Attempt])) \<and>
         (api_attempt env cfg m \<noteq> Delivered \<and> \<not> int (m + 1) < N \<longrightarrow>
           (\<exists>err evs. retry_loop (api_turn env N d) N cfg 0 [] = (Inl err, cfg, evs) \<and>
              retry_events evs =
                concat (map (\<lambda>i. api_requests env cfg i @ [RetryDelay d]) [0..<m]) @
                api_requests env cfg m))"
proof (intro conjI impI)
  let ?I = "\<lambda>c::sender_config. c = cfg"
  have B: "\<exists>cfg' new. api_turn env N d c i = Again cfg' new \<and>
             retry_events new = api_requests env cfg i @ [RetryDelay d] \<and> ?I cfg'"
    if "?I c" "i < m" for c :: sender_config and i
  proof -
    from that(2) fail have 1: "api_attempt env cfg i \<noteq> Delivered" by blast
    from that(2) m have 2: "int (i + 1) < N" by simp
    from api_turn_again [OF 1 2 d] that(1) show ?thesis by auto
  qed
  have e: "retry_events [] = []" by (simp add: retry_events_def)
  {
    assume del: "api_attempt env cfg m = Delivered"
    have F: "\<exists>res cfg' new. api_turn env N d c m = Return res cfg' new \<and> res = Inr () \<and>
               retry_events new = [Attempt] \<and> ?I cfg'" if "?I c" for c :: sender_config
      using api_turn_delivered [OF del, of N d] that by auto
    from retry_loop_returns [where I = ?I and P = "\<lambda>res. res = Inr ()" and body = "api_turn env N d"
        and calls = "api_requests env cfg" and fin = "[Attempt]" and r = 0 and evs = "[]" and cfg = cfg,
        OF F B m]
    show "\<exists>evs. retry_loop (api_turn env N d) N cfg 0 [] = (Inr (), cfg, evs) \<and>
              retry_events evs =
                concat (map (\<lambda>i. api_requests env cfg i @ [RetryDelay d]) [0..<m]) @ [Attempt]"
      by (auto simp: e simp del: retry_loop.simps)
  }
  {
    assume last: "api_attempt env cfg m \<noteq> Delivered \<and> \<not> int (m + 1) < N"
    have F: "\<exists>res cfg' new. api_turn env N d c m = Return res cfg' new \<and> (\<exists>err. res = Inl err) \<and>
               retry_events new = api_requests env cfg m \<and> ?I cfg'" if "?I c" for c :: sender_config
      using api_turn_last [of env cfg m N d] last that by auto
    from retry_loop_returns [where I = ?I and P = "\<lambda>res. \<exists>err. res = Inl err" and body = "api_turn env N d"
        and calls = "api_requests env cfg" and fin = "api_requests env cfg m" and r = 0 and evs = "[]"
        and cfg = cfg, OF F B m]
    show "\<exists>err evs. retry_loop (api_turn env N d) N cfg 0 [] = (Inl err, cfg, evs) \<and>
              retry_events evs =
                concat (map (\<lambda>i. api_requests env cfg i @ [RetryDelay d]) [0..<m]) @
                api_requests env cfg m"
      by (auto simp: e simp del: retry_loop.simps)
  }
qed


text \<open>
  C4, as stated, fails for \<open>max_retries = 0\<close>: the condition of the loop is false at
  once, no attempt is made and \<open>Send\<close> returns without raising, although the transport
  would fail at every attempt. It fails for a negative retry delay too: \<open>time.sleep\<close>
  raises in the handler of the first failed attempt, so \<open>Send\<close> raises after one attempt
  where \<open>max_retries\<close> is 3.
\<close>

theorem zero_retries_and_negative_delay:
  "send_via_smtp
     \<lparr>controller = always ControlOk, transport = always Failed, socketobject_defined = False\<rparr>
     \<lparr>use_tor = False, tor_force_tor = False, circuit_build_timeout = 10, max_retries = 0, retry_delay = 5\<rparr> =
   (Inr (),
    \<lparr>use_tor = False, tor_force_tor = False, circuit_build_timeout = 10, max_retries = 0, retry_delay = 5\<rparr>,
    []) \<and>
   send_via_api
     \<lparr>controller = always ControlOk, transport = always Failed, socketobject_defined = False\<rparr>
     \<lparr>use_tor = False, tor_force_tor = False, circuit_build_timeout = 10, max_retries = 0, retry_delay = 5\<rparr> =
   (Inr (),
    \<lparr>use_tor = False, tor_force_tor = False, circuit_build_timeout = 10, max_retries = 0, retry_delay = 5\<rparr>,
    []) \<and>
   send_via_smtp
     \<lparr>controller = always ControlOk, transport = always Failed, socketobject_defined = False\<rparr>
     \<lparr>use_tor = False, tor_force_tor = False, circuit_build_timeout = 10, max_retries = 3, retry_delay = - 1\<rparr> =
   (Inl SleepValueError,
    \<lparr>use_tor = False, tor_force_tor = False, circuit_build_timeout = 10, max_retries = 3, retry_delay = - 1\<rparr>,
    [Attempt]) \<and>
   send_via_api
     \<lparr>controller = always ControlOk, transport = always Failed, socketobject_defined = False\<rparr>
     \<lparr>use_tor = False, tor_force_tor = False, circuit_build_timeout = 10, max_retries = 3, retry_delay = - 1\<rparr> =
   (Inl SleepValueError,
    \<lparr>use_tor = False, tor_force_tor = False, circuit_build_timeout = 10, max_retries = 3, retry_delay = - 1\<rparr>,
    [Attempt])"
  by (simp add: send_via_smtp_def send_via_api_def smtp_turn_def api_turn_def always_def)

text \<open>
  C4, amended. Let \<open>max_retries = N\<close> and the retry delay \<open>d\<close>. If \<open>N \<le> 0\<close>, \<open>Send\<close> makes no
  attempt and returns without raising. Let \<open>N \<ge> 1\<close> and \<open>d \<ge> 0\<close>. If the first \<open>k - 1\<close>
  attempts fail and the \<open>k\<close>-th succeeds, with \<open>k \<le> N\<close>, then \<open>Send\<close> returns success and
  its attempts and retry waits are: \<open>k - 1\<close> times an attempt followed by a wait of \<open>d\<close>,
  then the \<open>k\<close>-th attempt. If every attempt fails, \<open>Send\<close> raises, and its attempts and
  retry waits are: \<open>N - 1\<close> times an attempt followed by a wait of \<open>d\<close>, then the \<open>N\<close>-th
  attempt (no wait after the last). On the API path the refresh of the identity is part of
  the attempt: an attempt whose refresh raises has failed, and makes no request. On the SMTP
  path the statement leaves out the sends in which, with identity routing on, a connection
  is dropped at an attempt before the last one while \<open>socket._socketobject\<close> does not exist.
\<close>

theorem retry_policy:
  "(max_retries cfg \<le> 0 \<longrightarrow>
      send_via_smtp env cfg = (Inr (), cfg, []) \<and> send_via_api env cfg = (Inr (), cfg, [])) \<and>
   (0 \<le> retry_delay cfg \<and> 1 \<le> k \<and> int k \<le> max_retries cfg \<and>
    (\<forall>i < k - 1. transport env i \<noteq> Delivered) \<and> transport env (k - 1) = Delivered \<and>
    (use_tor cfg \<and> \<not> socketobject_defined env \<longrightarrow> (\<forall>i < k - 1. transport env i \<noteq> Disconnected)) \<longrightarrow>
      (\<exists>cfg' evs. send_via_smtp env cfg = (Inr (), cfg', evs) \<and>
         retry_events evs =
           concat (replicate (k - 1) [Attempt, RetryDelay (retry_delay cfg)]) @ [Attempt])) \<and>
   (0 \<le> retry_delay cfg \<and> 1 \<le> k \<and> int k \<le> max_retries cfg \<and>
    (\<forall>i < k - 1. api_attempt env cfg i \<noteq> Delivered) \<and> api_attempt env cfg (k - 1) = Delivered \<longrightarrow>
      (\<exists>evs. send_via_api env cfg = (Inr (), cfg, evs) \<and>
         retry_events evs =
           concat (map (\<lambda>i. api_requests env cfg i @ [RetryDelay (retry_delay cfg)]) [0..<k - 1]) @
           [Attempt])) \<and>
   (0 \<le> retry_delay cfg \<and> 1 \<le> max_retries cfg \<and>
    (\<forall>i. int i < max_retries cfg \<longrightarrow> transport env i \<noteq> Delivered) \<and>
    (use_tor cfg \<and> \<not> socketobject_defined env \<longrightarrow>
       (\<forall>i. int (i + 1) < max_retries cfg \<longrightarrow> transport env i \<noteq> Disconnected)) \<longrightarrow>
      (\<exists>err cfg' evs. send_via_smtp env cfg = (Inl err, cfg', evs) \<and>
         retry_events evs =
           concat (replicate (nat (max_retries cfg) - 1) [Attempt, RetryDelay (retry_delay cfg)]) @
           [Attempt])) \<and>
   (0 \<le> retry_delay cfg \<and> 1 \<le> max_retries cfg \<and>
    (\<forall>i. int i < max_retries cfg \<longrightarrow> api_attempt env cfg i \<noteq> Delivered) \<longrightarrow>
      (\<exists>err evs. send_via_api env cfg = (Inl err, cfg, evs) \<and>
         retry_events evs =
           concat (map (\<lambda>i. api_requests env cfg i @ [RetryDelay (retry_delay cfg)])
                     [0..<nat (max_retries cfg) - 1]) @
           api_requests env cfg (nat (max_retries cfg) - 1)))"
proof (intro conjI impI)
  assume "max_retries cfg \<le> 0"
  then show "send_via_smtp env cfg = (Inr (), cfg, [])" "send_via_api env cfg = (Inr (), cfg, [])"
    by (simp_all add: send_via_smtp_def send_via_api_def)
next
  assume h: "0 \<le> retry_delay cfg \<and> 1 \<le> k \<and> int k \<le> max_retries cfg \<and>
    (\<forall>i < k - 1. transport env i \<noteq> Delivered) \<and> transport env (k - 1) = Delivered \<and>
    (use_tor cfg \<and> \<not> socketobject_defined env \<longrightarrow> (\<forall>i < k - 1. transport env i \<noteq> Disconnected))"
  then have m: "int (k - 1) < max_retries cfg" by linarith
  from h have d: "0 \<le> retry_delay cfg" and f: "\<forall>i < k - 1. transport env i \<noteq> Delivered"
    and s: "use_tor cfg \<and> \<not> socketobject_defined env \<longrightarrow> (\<forall>i < k - 1. transport env i \<noteq> Disconnected)"
    and del: "transport env (k - 1) = Delivered" by blast+
  from smtp_returns [OF m d f s, THEN conjunct1] del
  show "\<exists>cfg' evs. send_via_smtp env cfg = (Inr (), cfg', evs) \<and>
         retry_events evs =
           concat (replicate (k - 1) [Attempt, RetryDelay (retry_delay cfg)]) @ [Attempt]"
    unfolding send_via_smtp_def by blast
next
  assume h: "0 \<le> retry_delay cfg \<and> 1 \<le> k \<and> int k \<le> max_retries cfg \<and>
    (\<forall>i < k - 1. api_attempt env cfg i \<noteq> Delivered) \<and> api_attempt env cfg (k - 1) = Delivered"
  then have m: "int (k - 1) < max_retries cfg" by linarith
  from h have d: "0 \<le> retry_delay cfg" and f: "\<forall>i < k - 1. api_attempt env cfg i \<noteq> Delivered"
    and del: "api_attempt env cfg (k - 1) = Delivered" by blast+
  from api_returns [OF m d f, THEN conjunct1] del
  show "\<exists>evs. send_via_api env cfg = (Inr (), cfg, evs) \<and>
         retry_events evs =
           concat (map (\<lambda>i. api_requests env cfg i @ [RetryDelay (retry_delay cfg)]) [0..<k - 1]) @
           [Attempt]"
    unfolding send_via_api_def by blast
next
  assume h: "0 \<le> retry_delay cfg \<and> 1 \<le> max_retries cfg \<and>
    (\<forall>i. int i < max_retries cfg \<longrightarrow> transport env i \<noteq> Delivered) \<and>
    (use_tor cfg \<and> \<not> socketobject_defined env \<longrightarrow>
       (\<forall>i. int (i + 1) < max_retries cfg \<longrightarrow> transport env i \<noteq> Disconnected))"
  define m where "m = nat (max_retries cfg) - 1"
  from h have m: "int m < max_retries cfg" and l: "\<not> int (m + 1) < max_retries cfg"
    unfolding m_def by linarith+
  from h have d: "0 \<le> retry_delay cfg" by blast
  have f: "\<forall>i < m. transport env i \<noteq> Delivered"
  proof (intro allI impI)
    fix i assume "i < m"
    with m have "int i < max_retries cfg" by linarith
    with h show "transport env i \<noteq> Delivered" by blast
  qed
  have s: "use_tor cfg \<and> \<not> socketobject_defined env \<longrightarrow> (\<forall>i < m. transport env i \<noteq> Disconnected)"
  proof (intro allI impI)
    fix i assume u: "use_tor cfg \<and> \<not> socketobject_defined env" and "i < m"
    with m have "int (i + 1) < max_retries cfg" by linarith
    with h u show "transport env i \<noteq> Disconnected" by blast
  qed
  from m h have last: "transport env m \<noteq> Delivered" by blast
  from smtp_returns [OF m d f s, THEN conjunct2] last l
  have "\<exists>err cfg' evs. send_via_smtp env cfg = (Inl err, cfg', evs) \<and>
         retry_events evs = concat (replicate m [Attempt, RetryDelay (retry_delay cfg)]) @ [Attempt]"
    unfolding send_via_smtp_def by blast
  then show "\<exists>err cfg' evs. send_via_smtp env cfg = (Inl err, cfg', evs) \<and>
         retry_events evs =
           concat (replicate (nat (max_retries cfg) - 1) [Attempt, RetryDelay (retry_delay cfg)]) @
           [Attempt]"
    unfolding m_def .
next
  assume h: "0 \<le> retry_delay cfg \<and> 1 \<le> max_retries cfg \<and>
    (\<forall>i. int i < max_retries cfg \<longrightarrow> api_attempt env cfg i \<noteq> Delivered)"
  define m where "m = nat (max_retries cfg) - 1"
  from h have m: "int m < max_retries cfg" and l: "\<not> int (m + 1) < max_retries cfg"
    unfolding m_def by linarith+
  from h have d: "0 \<le> retry_delay cfg" by blast
  have f: "\<forall>i < m. api_attempt env cfg i \<noteq> Delivered"
  proof (intro allI impI)
    fix i assume "i < m"
    with m have "int i < max_retries cfg" by linarith
    with h show "api_attempt env cfg i \<noteq> Delivered" by blast
  qed
  from m h have last: "api_attempt env cfg m \<noteq> Delivered" by blast
  from api_returns [OF m d f, THEN conjunct2] last l
  have "\<exists>err evs. send_via_api env cfg = (Inl err, cfg, evs) \<and>
         retry_events evs =
           concat (map (\<lambda>i. api_requests env cfg i @ [RetryDelay (retry_delay cfg)]) [0..<m]) @
           api_requests env cfg m"
    unfolding send_via_api_def by blast
  then show "\<exists>err evs. send_via_api env cfg = (Inl err, cfg, evs) \<and>
         retry_events evs =
           concat (map (\<lambda>i. api_requests env cfg i @ [RetryDelay (retry_delay cfg)])
                     [0..<nat (max_retries cfg) - 1]) @
           api_requests env cfg (nat (max_retries cfg) - 1)"
    unfolding m_def .
qed

theorem retry_policy_witness:
  "send_via_smtp
     \<lparr>controller = always ControlOk, transport = always Failed, socketobject_defined = False\<rparr>
     \<lparr>use_tor = True, tor_force_tor = True, circuit_build_timeout = 10, max_retries = - 1, retry_delay = 5\<rparr> =
   (Inr (),
    \<lparr>use_tor = True, tor_force_tor = True, circuit_build_timeout = 10, max_retries = - 1, retry_delay = 5\<rparr>,
    []) \<and>
   send_via_smtp
     \<lparr>controller = always ControlOk, transport = fails_before 1, socketobject_defined = False\<rparr>
     \<lparr>use_tor = True, tor_force_tor = True, circuit_build_timeout = 10, max_retries = 3, retry_delay = 5\<rparr> =
   (Inr (),
    \<lparr>use_tor = True, tor_force_tor = True, circuit_build_timeout = 10, max_retries = 3, retry_delay = 5\<rparr>,
    [Authenticate, Newnym, Settle 10, Attempt, RetryDelay 5, Authenticate, Newnym, Settle 10, Attempt]) \<and>
   send_via_api
     \<lparr>controller = refresh_fails_before 1, transport = always Delivered, socketobject_defined = False\<rparr>
     \<lparr>use_tor = True, tor_force_tor = True, circuit_build_timeout = 10, max_retries = 3, retry_delay = 5\<rparr> =
   (Inr (),
    \<lparr>use_tor = True, tor_force_tor = True, circuit_build_timeout = 10, max_retries = 3, retry_delay = 5\<rparr>,
    [RetryDelay 5, Authenticate, Newnym, Settle 10, Attempt]) \<and>
   send_via_smtp
     \<lparr>controller = always ControlOk, transport = always Failed, socketobject_defined = False\<rparr>
     \<lparr>use_tor = True, tor_force_tor = True, circuit_build_timeout = 10, max_retries = 2, retry_delay = 5\<rparr> =
   (Inl TransportError,
    \<lparr>use_tor = True, tor_force_tor = True, circuit_build_timeout = 10, max_retries = 2, retry_delay = 5\<rparr>,
    [Authenticate, Newnym, Settle 10, Attempt, RetryDelay 5, Authenticate, Newnym, Settle 10, Attempt]) \<and>
   send_via_api
     \<lparr>controller = always ControlOk, transport = fails_before 3, socketobject_defined = False\<rparr>
     \<lparr>use_tor = False, tor_force_tor = False, circuit_build_timeout = 10, max_retries = 3, retry_delay = 5\<rparr> =
   (Inl TransportError,
    \<lparr>use_tor = False, tor_force_tor = False, circuit_build_timeout = 10, max_retries = 3, retry_delay = 5\<rparr>,
    [Attempt, RetryDelay 5, Attempt, RetryDelay 5, Attempt])"
  using
    retry_policy [of "\<lparr>use_tor = True, tor_force_tor = True, circuit_build_timeout = 10,
        max_retries = - 1, retry_delay = 5\<rparr>"
      "\<lparr>controller = always ControlOk, transport = always Failed, socketobject_defined = False\<rparr>" 1]
    retry_policy [of "\<lparr>use_tor = True, tor_force_tor = True, circuit_build_timeout = 10,
        max_retries = 3, retry_delay = 5\<rparr>"
      "\<lparr>controller = always ControlOk, transport = fails_before 1, socketobject_defined = False\<rparr>" 2]
    retry_policy [of "\<lparr>use_tor = True, tor_force_tor = True, circuit_build_timeout = 10,
        max_retries = 3, retry_delay = 5\<rparr>"
      "\<lparr>controller = refresh_fails_before 1, transport = always Delivered, socketobject_defined = False\<rparr>" 2]
    retry_policy [of "\<lparr>use_tor = True, tor_force_tor = True, circuit_build_timeout = 10,
        max_retries = 2, retry_delay = 5\<rparr>"
      "\<lparr>controller = always ControlOk, transport = always Failed, socketobject_defined = False\<rparr>" 1]
    retry_policy [of "\<lparr>use_tor = False, tor_force_tor = False, circuit_build_timeout = 10,
        max_retries = 3, retry_delay = 5\<rparr>"
      "\<lparr>controller = always ControlOk, transport = fails_before 3, socketobject_defined = False\<rparr>" 1]
  by (simp add: send_via_smtp_def send_via_api_def smtp_turn_def api_turn_def
      refresh_tor_circuit_def always_def fails_before_def refresh_fails_before_def)

text \<open>
  What the amended statement leaves out: with identity routing on, the handler of a
  dropped connection resets the socket through \<open>socket._socketobject\<close>, which Python 3
  does not have. The attribute error leaves \<open>Send\<close> after the first attempt and its wait.
\<close>

lemma dropped_connection_under_tor:
  assumes "use_tor cfg" and "controller env 0 = ControlOk" and "\<not> socketobject_defined env"
    and "transport env 0 = Disconnected" and "1 < max_retries cfg" and "0 \<le> retry_delay cfg"
    and "0 \<le> circuit_build_timeout cfg"
  shows "send_via_smtp env cfg =
           (Inl AttributeError, cfg,
            [Authenticate, Newnym, Settle (circuit_build_timeout cfg), Attempt,
             RetryDelay (retry_delay cfg)])"
  using assms
  by (simp add: send_via_smtp_def smtp_turn_def refresh_tor_circuit_def)

subsection \<open>The dispatch loop\<close>

lemma batch_events_append: "batch_events (a @ b) = batch_events a @ batch_events b"
  by (simp add: batch_events_def)

lemma send_batch_events:
  "\<exists>new. send_batch send_ok cfg t rs (n, evs) = (n + length rs, evs @ new) \<and>
         batch_events new = map (SendEmail t) rs"
proof (induction rs arbitrary: n evs)
  case Nil
  then show ?case by (simp add: batch_events_def)
next
  case (Cons r rs)
  let ?one = "[SendEmail t r] @ (if send_ok n \<and> 0 \<le> delay_between_emails cfg
      then [MessageDelay (delay_between_emails cfg)] else [])"
  from Cons [of "n + 1" "evs @ ?one"] obtain new where
    new: "send_batch send_ok cfg t rs (n + 1, evs @ ?one) = (n + 1 + length rs, (evs @ ?one) @ new)"
      "batch_events new = map (SendEmail t) rs" by blast
  have "batch_events (?one @ new) = map (SendEmail t) (r # rs)"
    using new(2) by (simp add: batch_events_append) (simp add: batch_events_def)
  moreover have "send_batch send_ok cfg t (r # rs) (n, evs) = (n + length (r # rs), evs @ (?one @ new))"
    using new(1) by simp
  ultimately show ?case by blast
qed

lemma chunks_step:
  "0 < b \<Longrightarrow> xs \<noteq> [] \<Longrightarrow> chunks b xs = take b xs # chunks b (drop b xs)"
  by (subst chunks.simps) simp

lemma chunks_Nil: "chunks b [] = []"
  by (subst chunks.simps) simp

lemma chunks_zero: "chunks 0 xs = []"
  by (subst chunks.simps) simp

lemma chunks_empty_iff: "0 < b \<Longrightarrow> (chunks b xs = []) = (xs = [])"
  by (subst chunks.simps) simp

text \<open>
  The batches of one template, from the recipient at index \<open>i\<close> on: whatever happens, the
  sends and the delays between batches are an initial part of the batches with one delay
  between each two; they are all of them, and the loop ends without an exception, unless
  a negative delay is to be taken.
\<close>

lemma batch_loop_events:
  assumes b: "0 < batch_size cfg"
  shows "\<exists>res n' new. batch_loop send_ok cfg t rcpts i (n, evs) = (res, n', evs @ new) \<and>
           prefix (batch_events new)
             (intercalate [BatchDelay (delay_between_batches cfg)]
                (map (map (SendEmail t)) (chunks (nat (batch_size cfg)) (drop i rcpts)))) \<and>
           (length rcpts \<le> nat (batch_size cfg) \<or> 0 \<le> delay_between_batches cfg \<longrightarrow>
              res = None \<and> n' = n + (length rcpts - i) \<and>
              batch_events new =
                intercalate [BatchDelay (delay_between_batches cfg)]
                  (map (map (SendEmail t)) (chunks (nat (batch_size cfg)) (drop i rcpts))))"
proof (induction "length rcpts - i" arbitrary: i n evs rule: less_induct)
  case less
  define bs where "bs = nat (batch_size cfg)"
  from b have bs: "0 < bs" "int bs = batch_size cfg" by (simp_all add: bs_def)
  let ?sep = "[BatchDelay (delay_between_batches cfg)]"
  let ?E = "\<lambda>i. intercalate ?sep (map (map (SendEmail t)) (chunks bs (drop i rcpts)))"
  let ?ok = "length rcpts \<le> bs \<or> 0 \<le> delay_between_batches cfg"
  have goal: "\<exists>res n' new. batch_loop send_ok cfg t rcpts i (n, evs) = (res, n', evs @ new) \<and>
           prefix (batch_events new) (?E i) \<and>
           (?ok \<longrightarrow> res = None \<and> n' = n + (length rcpts - i) \<and> batch_events new = ?E i)"
  proof (cases "i < length rcpts")
    case False
    then have "drop i rcpts = []" by simp
    moreover from False have "batch_loop send_ok cfg t rcpts i (n, evs) = (None, n, evs @ [])"
      by (subst batch_loop.simps) simp
    ultimately show ?thesis using False
      by (intro exI [of _ None] exI [of _ n] exI [of _ "[]"]) (simp add: chunks_Nil batch_events_def)
  next
    case True
    define batch where "batch = take bs (drop i rcpts)"
    from send_batch_events [of send_ok cfg t batch n evs] obtain new1 where
      n1: "send_batch send_ok cfg t batch (n, evs) = (n + length batch, evs @ new1)"
        "batch_events new1 = map (SendEmail t) batch" by blast
    have ch: "chunks bs (drop i rcpts) = batch # chunks bs (drop (i + bs) rcpts)"
      using chunks_step [OF bs(1), of "drop i rcpts"] True
      by (simp add: batch_def add.commute)
    have lt: "length rcpts - (i + bs) < length rcpts - i" using True bs(1) by simp
    show ?thesis
    proof (cases "i + bs < length rcpts")
      case more: True
      from more have "drop (i + bs) rcpts \<noteq> []" by simp
      with chunks_empty_iff [OF bs(1), of "drop (i + bs) rcpts"]
      have "chunks bs (drop (i + bs) rcpts) \<noteq> []" by blast
      then obtain c cs where ccs: "chunks bs (drop (i + bs) rcpts) = c # cs"
        by (cases "chunks bs (drop (i + bs) rcpts)") auto
      have Ei: "?E i = map (SendEmail t) batch @ ?sep @ ?E (i + bs)"
        by (simp add: ch ccs)
      have lb: "length batch = bs" using more by (simp add: batch_def)
      from more bs have cond: "int i + batch_size cfg < int (length rcpts)" by linarith
      show ?thesis
      proof (cases "delay_between_batches cfg < 0")
        case neg: True
        have "batch_loop send_ok cfg t rcpts i (n, evs) = (Some SleepNegative, n + length batch, evs @ new1)"
          using True cond b n1(1) neg
          by (subst batch_loop.simps) (simp add: Let_def batch_def [symmetric] bs_def [symmetric])
        moreover have "prefix (batch_events new1) (?E i)" using n1(2) Ei by simp
        moreover from more neg have "\<not> ?ok" by simp
        ultimately show ?thesis by blast
      next
        case nn: False
        from less [OF lt, of "n + length batch" "evs @ new1 @ ?sep"] obtain res n' new2 where
          n2: "batch_loop send_ok cfg t rcpts (i + bs) (n + length batch, evs @ new1 @ ?sep) =
                 (res, n', (evs @ new1 @ ?sep) @ new2)"
            "prefix (batch_events new2) (?E (i + bs))"
            "?ok \<longrightarrow> res = None \<and> n' = n + length batch + (length rcpts - (i + bs)) \<and>
                batch_events new2 = ?E (i + bs)"
          unfolding bs_def by blast
        have run: "batch_loop send_ok cfg t rcpts i (n, evs) = (res, n', evs @ (new1 @ ?sep @ new2))"
          using True cond b n1(1) n2(1) nn
          by (subst batch_loop.simps) (simp add: Let_def batch_def [symmetric] bs_def [symmetric])
        have be: "batch_events (new1 @ ?sep @ new2) = map (SendEmail t) batch @ ?sep @ batch_events new2"
          using n1(2) by (simp add: batch_events_append) (simp add: batch_events_def)
        have p: "prefix (batch_events (new1 @ ?sep @ new2)) (?E i)"
          unfolding be Ei using n2(2) by simp
        have "?ok \<longrightarrow> res = None \<and> n' = n + (length rcpts - i) \<and>
                batch_events (new1 @ ?sep @ new2) = ?E i"
          unfolding be Ei using n2(3) lb more by auto
        with run p show ?thesis by blast
      qed
    next
      case last: False
      then have dr: "drop (i + bs) rcpts = []" by simp
      have lb: "length batch = length rcpts - i" using last True by (simp add: batch_def)
      have Ei: "?E i = map (SendEmail t) batch" by (simp add: ch dr chunks_Nil)
      have stop: "batch_loop send_ok cfg t rcpts (i + bs) st = (None, st)" for st
        using last by (subst batch_loop.simps) (simp)
      from last bs have cond: "\<not> int i + batch_size cfg < int (length rcpts)" by linarith
      have "batch_loop send_ok cfg t rcpts i (n, evs) = (None, n + (length rcpts - i), evs @ new1)"
        using True cond b n1(1) lb stop
        by (subst batch_loop.simps) (simp add: Let_def batch_def [symmetric] bs_def [symmetric])
      with n1(2) Ei show ?thesis by auto
    qed
  qed
  then show ?case unfolding bs_def .
qed

lemma template_events_no_batches: "batch_size cfg \<le> 0 \<Longrightarrow> template_events cfg rcpts t = []"
  by (simp add: template_events_def chunks_zero)

lemma template_loop_events:
  "\<exists>res n' new. template_loop load send_ok cfg rcpts ts (n, evs) = (res, n', evs @ new) \<and>
     prefix (batch_events new) (concat (map (template_events cfg rcpts) ts)) \<and>
     (0 < batch_size cfg \<and>
      (length rcpts \<le> nat (batch_size cfg) \<or> 0 \<le> delay_between_batches cfg) \<and>
      (\<forall>t \<in> set ts. \<exists>tpl. load t = Inr tpl) \<longrightarrow>
        res = None \<and> n' = n + length ts * length rcpts \<and>
        batch_events new = concat (map (template_events cfg rcpts) ts))"
proof (induction ts arbitrary: n evs)
  case Nil
  show ?case by (simp add: batch_events_def)
next
  case (Cons t ts)
  let ?ok = "\<lambda>ts. 0 < batch_size cfg \<and>
      (length rcpts \<le> nat (batch_size cfg) \<or> 0 \<le> delay_between_batches cfg) \<and>
      (\<forall>t \<in> set ts. \<exists>tpl. load t = Inr tpl)"
  have stop: ?case
    if "template_loop load send_ok cfg rcpts (t # ts) (n, evs) = (Some err, n, evs)" "\<not> ?ok (t # ts)"
    for err
    using that by (intro exI [of _ "Some err"] exI [of _ n] exI [of _ "[]"]) (simp add: batch_events_def)
  show ?case
  proof (cases "load t")
    case (Inl err)
    then have "\<not> ?ok (t # ts)" by simp
    moreover from Inl have "template_loop load send_ok cfg rcpts (t # ts) (n, evs) =
        (Some (TemplateFailed err), n, evs)" by simp
    ultimately show ?thesis by (rule stop [rotated])
  next
    case (Inr tpl)
    consider "batch_size cfg = 0" | "batch_size cfg < 0" | "0 < batch_size cfg" by linarith
    then show ?thesis
    proof cases
      case 1
      then have "\<not> ?ok (t # ts)" by simp
      moreover from 1 Inr have "template_loop load send_ok cfg rcpts (t # ts) (n, evs) =
          (Some RangeStepZero, n, evs)" by simp
      ultimately show ?thesis by (rule stop [rotated])
    next
      case 2
      then have bl: "batch_loop send_ok cfg t rcpts 0 (n, evs) = (None, n, evs)"
        by (subst batch_loop.simps) simp
      from Cons [of n evs] obtain res n' new where
        ih: "template_loop load send_ok cfg rcpts ts (n, evs) = (res, n', evs @ new)"
          "prefix (batch_events new) (concat (map (template_events cfg rcpts) ts))" by blast
      from 2 Inr bl ih(1) have "template_loop load send_ok cfg rcpts (t # ts) (n, evs) = (res, n', evs @ new)"
        by simp
      moreover from 2 have "template_events cfg rcpts t = []"
        by (simp add: template_events_no_batches)
      moreover from 2 have "\<not> ?ok (t # ts)" by simp
      ultimately show ?thesis using ih(2) by auto
    next
      case 3
      from batch_loop_events [OF 3, of send_ok t rcpts 0 n evs] obtain res1 n1 new1 where
        b1: "batch_loop send_ok cfg t rcpts 0 (n, evs) = (res1, n1, evs @ new1)"
          "prefix (batch_events new1) (template_events cfg rcpts t)"
          "length rcpts \<le> nat (batch_size cfg) \<or> 0 \<le> delay_between_batches cfg \<longrightarrow>
             res1 = None \<and> n1 = n + length rcpts \<and> batch_events new1 = template_events cfg rcpts t"
        by (auto simp: template_events_def)
      show ?thesis
      proof (cases res1)
        case (Some err)
        with b1(3) have "\<not> ?ok (t # ts)" by auto
        moreover from Some 3 Inr b1(1)
        have "template_loop load send_ok cfg rcpts (t # ts) (n, evs) = (Some err, n1, evs @ new1)"
          by simp
        moreover from b1(2)
        have "prefix (batch_events new1) (concat (map (template_events cfg rcpts) (t # ts)))"
          by (simp add: prefix_def) (metis append.assoc)
        ultimately show ?thesis by blast
      next
        case None
        have full: "batch_events new1 = template_events cfg rcpts t \<and> n1 = n + length rcpts"
        proof (cases "length rcpts \<le> nat (batch_size cfg) \<or> 0 \<le> delay_between_batches cfg")
          case True
          with b1(3) show ?thesis by blast
        next
          case False
          then have more: "0 + nat (batch_size cfg) < length rcpts" and neg: "delay_between_batches cfg < 0"
            by simp_all
          from more 3 have "rcpts \<noteq> []" "int 0 + batch_size cfg < int (length rcpts)" by auto
          with 3 neg have "fst (batch_loop send_ok cfg t rcpts 0 (n, evs)) = Some SleepNegative"
            by (subst batch_loop.simps) (simp add: Let_def)
          with b1(1) None show ?thesis by simp
        qed
        from Cons [of n1 "evs @ new1"] obtain res n' new2 where
          ih: "template_loop load send_ok cfg rcpts ts (n1, evs @ new1) = (res, n', (evs @ new1) @ new2)"
            "prefix (batch_events new2) (concat (map (template_events cfg rcpts) ts))"
            "?ok ts \<longrightarrow> res = None \<and> n' = n1 + length ts * length rcpts \<and>
               batch_events new2 = concat (map (template_events cfg rcpts) ts)"
          by blast
        from None 3 Inr b1(1) ih(1)
        have run: "template_loop load send_ok cfg rcpts (t # ts) (n, evs) = (res, n', evs @ (new1 @ new2))"
          by simp
        have p: "prefix (batch_events (new1 @ new2)) (concat (map (template_events cfg rcpts) (t # ts)))"
          using full ih(2) by (simp add: batch_events_append)
        have "?ok (t # ts) \<longrightarrow> res = None \<and> n' = n + length (t # ts) * length rcpts \<and>
               batch_events (new1 @ new2) = concat (map (template_events cfg rcpts) (t # ts))"
          using full ih(3) by (auto simp: batch_events_append)
        with run p show ?thesis by blast
      qed
    qed
  qed
qed

lemma concat_chunks: "0 < b \<Longrightarrow> concat (chunks b xs) = xs"
proof (induction "length xs" arbitrary: xs rule: less_induct)
  case less
  show ?case
  proof (cases "xs = []")
    case True
    then show ?thesis by (simp add: chunks_Nil)
  next
    case False
    with less.prems have "length (drop b xs) < length xs" by simp
    from less.hyps [OF this less.prems] chunks_step [OF less.prems False]
    show ?thesis by simp
  qed
qed

lemma sends_of_intercalate:
  "filter is_send (intercalate [BatchDelay d] (map (map (SendEmail t)) cs)) =
   map (SendEmail t) (concat cs)"
proof (induction cs rule: induct_list012)
  case 1
  then show ?case by simp
next
  case (2 c)
  have "filter is_send (map (SendEmail t) c) = map (SendEmail t) c"
    by (induction c) simp_all
  then show ?case by simp
next
  case (3 c c' cs)
  have "filter is_send (map (SendEmail t) c) = map (SendEmail t) c"
    by (induction c) simp_all
  with 3 show ?case by simp
qed

lemma sends_of_template_events:
  "0 < batch_size cfg \<Longrightarrow> filter is_send (template_events cfg rcpts t) = map (SendEmail t) rcpts"
  by (simp add: template_events_def sends_of_intercalate concat_chunks)

lemma sends_of_batch_events: "filter is_send (batch_events evs) = filter is_send evs"
proof (induction evs)
  case Nil
  then show ?case by (simp add: batch_events_def)
next
  case (Cons e evs)
  then show ?case by (cases e) (simp_all add: batch_events_def)
qed

text \<open>
  Claim C5. In every run of the campaign loop, whatever it is given and however it ends,
  the sends and the delays between batches are, in their order, an initial part of this
  list: for each template in turn, the batches of the recipient list with one delay
  between each two consecutive batches. So no send of a template comes before the last
  batch of the template before it, a delay between batches comes only between two
  consecutive batches of one template, and none follows the last batch of a template. If
  the batch size is at least one, every template loads, and the delay between batches is
  a time that \<open>time.sleep\<close> takes (not negative) unless all recipients fit in one batch,
  then the loop ends without an exception, whatever sends fail, and the list is complete:
  \<open>send_email\<close> is called once for every template and recipient.
\<close>

theorem dispatch_order:
  "\<exists>res n evs.
     send_campaign_loop load send_ok cfg templates rcpts = (res, n, evs) \<and>
     prefix (batch_events evs) (concat (map (template_events cfg rcpts) templates)) \<and>
     (0 < batch_size cfg \<and>
      (length rcpts \<le> nat (batch_size cfg) \<or> 0 \<le> delay_between_batches cfg) \<and>
      (\<forall>t \<in> set templates. \<exists>tpl. load t = Inr tpl) \<longrightarrow>
        res = None \<and> n = length templates * length rcpts \<and>
        batch_events evs = concat (map (template_events cfg rcpts) templates) \<and>
        filter is_send evs = concat (map (\<lambda>t. map (SendEmail t) rcpts) templates))"
proof -
  from template_loop_events [of load send_ok cfg rcpts templates 0 "[]"] obtain res n evs where
    r0: "template_loop load send_ok cfg rcpts templates (0, []) = (res, n, [] @ evs)"
    and p: "prefix (batch_events evs) (concat (map (template_events cfg rcpts) templates))"
    and e0: "0 < batch_size cfg \<and>
      (length rcpts \<le> nat (batch_size cfg) \<or> 0 \<le> delay_between_batches cfg) \<and>
      (\<forall>t \<in> set templates. \<exists>tpl. load t = Inr tpl) \<longrightarrow>
        res = None \<and> n = 0 + length templates * length rcpts \<and>
        batch_events evs = concat (map (template_events cfg rcpts) templates)"
    by (elim exE conjE)
  from r0 have r: "send_campaign_loop load send_ok cfg templates rcpts = (res, n, evs)"
    by (simp add: send_campaign_loop_def)
  from e0 have e: "0 < batch_size cfg \<and>
      (length rcpts \<le> nat (batch_size cfg) \<or> 0 \<le> delay_between_batches cfg) \<and>
      (\<forall>t \<in> set templates. \<exists>tpl. load t = Inr tpl) \<longrightarrow>
        res = None \<and> n = length templates * length rcpts \<and>
        batch_events evs = concat (map (template_events cfg rcpts) templates)"
    by simp
  have "filter is_send evs = concat (map (\<lambda>t. map (SendEmail t) rcpts) templates)"
    if b: "0 < batch_size cfg"
      and be: "batch_events evs = concat (map (template_events cfg rcpts) templates)"
  proof -
    have "filter is_send evs = filter is_send (batch_events evs)"
      by (rule sends_of_batch_events [symmetric])
    also have "\<dots> = concat (map (\<lambda>t. filter is_send (template_events cfg rcpts t)) templates)"
      unfolding be by (simp add: filter_concat comp_def)
    also have "\<dots> = concat (map (\<lambda>t. map (SendEmail t) rcpts) templates)"
      by (simp add: sends_of_template_events [OF b])
    finally show ?thesis .
  qed
  with r p e show ?thesis by blast
qed

theorem dispatch_order_witness:
  "send_campaign_loop loads (fails_at 1)
     \<lparr>batch_size = 2, delay_between_batches = 5, delay_between_emails = 1\<rparr>
     [''t1'', ''t2''] [''a'', ''b'', ''c''] =
   (None, 6, [SendEmail ''t1'' ''a'', MessageDelay 1, SendEmail ''t1'' ''b'', BatchDelay 5,
            SendEmail ''t1'' ''c'', MessageDelay 1,
            SendEmail ''t2'' ''a'', MessageDelay 1, SendEmail ''t2'' ''b'', MessageDelay 1, BatchDelay 5,
            SendEmail ''t2'' ''c'', MessageDelay 1]) \<and>
   concat (map (template_events \<lparr>batch_size = 2, delay_between_batches = 5, delay_between_emails = 1\<rparr>
                  [''a'', ''b'', ''c'']) [''t1'', ''t2'']) =
     [SendEmail ''t1'' ''a'', SendEmail ''t1'' ''b'', BatchDelay 5, SendEmail ''t1'' ''c'',
      SendEmail ''t2'' ''a'', SendEmail ''t2'' ''b'', BatchDelay 5, SendEmail ''t2'' ''c'']"
proof -
  let ?cfg = "\<lparr>batch_size = 2, delay_between_batches = 5, delay_between_emails = 1\<rparr>"
  have h: "0 < batch_size ?cfg \<and>
      (length [''a'', ''b'', ''c''] \<le> nat (batch_size ?cfg) \<or> 0 \<le> delay_between_batches ?cfg) \<and>
      (\<forall>t \<in> set [''t1'', ''t2'']. \<exists>tpl. loads t = Inr tpl)" by (simp add: loads_def)
  from dispatch_order [of loads "fails_at 1" ?cfg "[''t1'', ''t2'']" "[''a'', ''b'', ''c'']"] h
  obtain res n evs where
    r: "send_campaign_loop loads (fails_at 1) ?cfg [''t1'', ''t2''] [''a'', ''b'', ''c''] = (res, n, evs)"
    and e: "batch_events evs = concat (map (template_events ?cfg [''a'', ''b'', ''c'']) [''t1'', ''t2''])"
    by blast
  have v: "send_campaign_loop loads (fails_at 1) ?cfg [''t1'', ''t2''] [''a'', ''b'', ''c''] =
   (None, 6, [SendEmail ''t1'' ''a'', MessageDelay 1, SendEmail ''t1'' ''b'', BatchDelay 5,
            SendEmail ''t1'' ''c'', MessageDelay 1,
            SendEmail ''t2'' ''a'', MessageDelay 1, SendEmail ''t2'' ''b'', MessageDelay 1, BatchDelay 5,
            SendEmail ''t2'' ''c'', MessageDelay 1])"
    by (simp add: send_campaign_loop_def batch_loop.simps loads_def fails_at_def Let_def)
  with r have "evs = [SendEmail ''t1'' ''a'', MessageDelay 1, SendEmail ''t1'' ''b'', BatchDelay 5,
            SendEmail ''t1'' ''c'', MessageDelay 1,
            SendEmail ''t2'' ''a'', MessageDelay 1, SendEmail ''t2'' ''b'', MessageDelay 1, BatchDelay 5,
            SendEmail ''t2'' ''c'', MessageDelay 1]" by simp
  with e have "concat (map (template_events ?cfg [''a'', ''b'', ''c'']) [''t1'', ''t2'']) =
     [SendEmail ''t1'' ''a'', SendEmail ''t1'' ''b'', BatchDelay 5, SendEmail ''t1'' ''c'',
      SendEmail ''t2'' ''a'', SendEmail ''t2'' ''b'', BatchDelay 5, SendEmail ''t2'' ''c'']"
    by (simp add: batch_events_def)
  with v show ?thesis by (intro conjI)
qed

text \<open>
  The wait between batches is not inside the \<open>try\<close> of the recipients, so a negative delay
  between batches ends the campaign after the first batch of the first template.
\<close>

lemma negative_batch_delay_ends_campaign:
  assumes "0 < batch_size cfg" and "nat (batch_size cfg) < length rcpts"
    and "delay_between_batches cfg < 0" and "load t = Inr tpl"
  shows "fst (send_campaign_loop load send_ok cfg (t # ts) rcpts) = Some SleepNegative"
proof -
  from assms(1,2) have "rcpts \<noteq> []" "int 0 + batch_size cfg < int (length rcpts)" by auto
  with assms have "fst (batch_loop send_ok cfg t rcpts 0 (0, [])) = Some SleepNegative"
    by (subst batch_loop.simps) (simp add: Let_def)
  with assms show ?thesis
    by (cases "batch_loop send_ok cfg t rcpts 0 (0, [])") (simp add: send_campaign_loop_def)
qed

end
